theory Spec2Isabelle
  imports Main "HOL-Library.Word"
begin

section \<open>The trie container of \<open>Trie.hpp\<close>\<close>

text \<open>
  The container is instantiated as in the sample program: key elements are characters
  (the lookup functions take a \<open>std::string_view\<close>), the value type is a parameter.
  The counter \<open>m_size\<close> is a \<open>std::size_t\<close>, taken as a 64-bit unsigned word.
\<close>

subsection \<open>Data\<close>

text \<open>
  \<open>struct TrieNode\<close>: a character, an optional vector of children and an optional value.
  The constructor \<open>TrieNode(ch)\<close> leaves both optionals empty.
\<close>

datatype 'v TrieNode =
  TrieNode (character: char) (opt_children: "'v TrieNode list option") (opt_value: "'v option")

definition new_node :: "char \<Rightarrow> 'v TrieNode" where
  "new_node ch = TrieNode ch None None"

text \<open>Assignments to the two optional fields of a node.\<close>

definition set_children :: "'v TrieNode \<Rightarrow> 'v TrieNode list option \<Rightarrow> 'v TrieNode" where
  "set_children node cs = TrieNode (character node) cs (opt_value node)"

definition set_value :: "'v TrieNode \<Rightarrow> 'v option \<Rightarrow> 'v TrieNode" where
  "set_value node v = TrieNode (character node) (opt_children node) v"

text \<open>\<open>class Trie\<close>: the root node and the element counter.\<close>

record 'v Trie =
  m_root :: "'v TrieNode"
  m_size :: "64 word"

text \<open>\<open>Trie() : m_root('\0'), m_size(0)\<close>.\<close>

definition Trie_init :: "'v Trie" where
  "Trie_init = \<lparr>m_root = new_node (CHR 0x00), m_size = 0\<rparr>"

text \<open>The only exception the container throws: \<open>std::out_of_range("Key not found in Trie")\<close>.\<close>

datatype error = KeyNotFound

subsection \<open>Vector helpers\<close>

text \<open>
  \<open>std::find_if\<close> over a vector: the position of the first element that satisfies the
  predicate, \<open>None\<close> for the end iterator.
\<close>

fun find_if :: "('a \<Rightarrow> bool) \<Rightarrow> 'a list \<Rightarrow> nat option" where
  "find_if P [] = None"
| "find_if P (x # xs) = (if P x then Some 0 else map_option Suc (find_if P xs))"

text \<open>\<open>vector::erase(it)\<close>: the element at one position is removed, the rest keep their order.\<close>

definition erase_at :: "nat \<Rightarrow> 'a list \<Rightarrow> 'a list" where
  "erase_at i xs = take i xs @ drop (Suc i) xs"

subsection \<open>Lookup\<close>

text \<open>
  \<open>find_node\<close>: walks from a node along the key; a null pointer is \<open>None\<close>, a node pointer
  is modelled by the node it points to.
\<close>

fun find_node :: "'v TrieNode \<Rightarrow> string \<Rightarrow> 'v TrieNode option" where
  "find_node current_node [] = Some current_node"
| "find_node current_node (ch # key) =
     (case opt_children current_node of
        None \<Rightarrow> None
      | Some children \<Rightarrow>
          (case find_if (\<lambda>child. character child = ch) children of
             None \<Rightarrow> None
           | Some i \<Rightarrow> find_node (children ! i) key))"

text \<open>\<open>contains\<close>: \<open>find_node(key) != nullptr\<close>.\<close>

definition contains :: "'v Trie \<Rightarrow> string \<Rightarrow> bool" where
  "contains t key = (find_node (m_root t) key \<noteq> None)"

text \<open>
  \<open>find\<close>: a pointer to the value, or null. The pointer is modelled by the value it
  points to.
\<close>

definition find_Trie :: "'v Trie \<Rightarrow> string \<Rightarrow> 'v option" where
  "find_Trie t key =
     (case find_node (m_root t) key of
        None \<Rightarrow> None
      | Some node \<Rightarrow> opt_value node)"

text \<open>
  \<open>at\<close>: throws when the node or its value is missing. The body writes nothing; the
  state is returned beside the result so that this can be stated.
\<close>

definition at_Trie :: "'v Trie \<Rightarrow> string \<Rightarrow> 'v Trie \<times> (error + 'v)" where
  "at_Trie t key =
     (case find_node (m_root t) key of
        None \<Rightarrow> (t, Inl KeyNotFound)
      | Some node \<Rightarrow>
          (case opt_value node of
             None \<Rightarrow> (t, Inl KeyNotFound)
           | Some v \<Rightarrow> (t, Inr v)))"

subsection \<open>Insertion\<close>

text \<open>
  The loop shared, statement for statement, by \<open>find_or_insert\<close> and \<open>insert\<close>: at each
  key element the children vector is created if absent, the first child with that
  character is taken, or a new child is appended. \<open>fin\<close> is what the caller does at the
  node where the loop ends; the rebuilt node stands for the in-place update.
\<close>

fun walk_create :: "('v TrieNode \<Rightarrow> 'v TrieNode \<times> 'r) \<Rightarrow> 'v TrieNode \<Rightarrow> string \<Rightarrow> 'v TrieNode \<times> 'r" where
  "walk_create fin node [] = fin node"
| "walk_create fin node (ch # key) =
     (let children = (case opt_children node of None \<Rightarrow> [] | Some cs \<Rightarrow> cs) in
      case find_if (\<lambda>child. character child = ch) children of
        None \<Rightarrow>
          (case walk_create fin (new_node ch) key of
             (child', r) \<Rightarrow> (set_children node (Some (children @ [child'])), r))
      | Some i \<Rightarrow>
          (case walk_create fin (children ! i) key of
             (child', r) \<Rightarrow> (set_children node (Some (children[i := child'])), r)))"

text \<open>
  \<open>find_or_insert\<close>, the body of both \<open>operator[]\<close>: at the end of the path a missing
  value is default-constructed (\<open>dflt\<close> stands for \<open>ValueType{}\<close>) and counted. The
  returned reference is modelled by the value it designates.
\<close>

definition find_or_insert :: "'v \<Rightarrow> 'v Trie \<Rightarrow> string \<Rightarrow> 'v Trie \<times> 'v" where
  "find_or_insert dflt t key =
     (case walk_create
             (\<lambda>node. case opt_value node of
                        None \<Rightarrow> (set_value node (Some dflt), (m_size t + 1, dflt))
                      | Some v \<Rightarrow> (node, (m_size t, v)))
             (m_root t) key of
        (root', (sz', v)) \<Rightarrow> (\<lparr>m_root = root', m_size = sz'\<rparr>, v))"

text \<open>
  Both \<open>operator[]\<close> overloads pass their argument to \<open>find_or_insert\<close>; the key is the
  sequence that its loop runs over. For a \<open>std::string\<close> or a \<open>std::string_view\<close> that
  is the string. A string literal selects the range overload (an exact match, where
  \<open>std::string_view\<close> needs a conversion) with the array type, and the loop then runs
  over the whole array, the terminating \<open>'\0'\<close> included.
\<close>

definition subscript :: "'v \<Rightarrow> 'v Trie \<Rightarrow> string \<Rightarrow> 'v Trie \<times> 'v" where
  "subscript dflt t key = find_or_insert dflt t key"

definition c_literal :: "string \<Rightarrow> string" where
  "c_literal s = s @ [CHR 0x00]"

text \<open>
  \<open>insert\<close>: the value is stored only where none is present; the result is the pointer
  to the stored value (modelled by that value) and the flag.
\<close>

fun insert_Trie :: "'v Trie \<Rightarrow> string \<times> 'v \<Rightarrow> 'v Trie \<times> ('v \<times> bool)" where
  "insert_Trie t (key, v) =
     (case walk_create
             (\<lambda>node. case opt_value node of
                        None \<Rightarrow> (set_value node (Some v), (m_size t + 1, (v, True)))
                      | Some old \<Rightarrow> (node, (m_size t, (old, False))))
             (m_root t) key of
        (root', (sz', r)) \<Rightarrow> (\<lparr>m_root = root', m_size = sz'\<rparr>, r))"

declare insert_Trie.simps [simp del]

subsection \<open>Erase\<close>

text \<open>
  \<open>erase_recursive(node, key, depth)\<close>: the pair of key and depth is the rest of the key
  still to be followed. The counter is threaded through, since the function decrements
  \<open>m_size\<close>. The child is removed from the vector when its children are present and
  empty and it has no value.
\<close>

fun erase_recursive :: "'v TrieNode \<Rightarrow> string \<Rightarrow> 64 word \<Rightarrow> 'v TrieNode \<times> 64 word \<times> bool" where
  "erase_recursive node [] sz =
     (if opt_value node \<noteq> None then (set_value node None, sz - 1, True)
      else (node, sz, False))"
| "erase_recursive node (ch # key) sz =
     (case opt_children node of
        None \<Rightarrow> (node, sz, False)
      | Some children \<Rightarrow>
          (case find_if (\<lambda>child. character child = ch) children of
             None \<Rightarrow> (node, sz, False)
           | Some i \<Rightarrow>
               (case erase_recursive (children ! i) key sz of
                  (child', sz', True) \<Rightarrow>
                    (if opt_children child' = Some [] \<and> opt_value child' = None
                     then (set_children node (Some (erase_at i children)), sz', True)
                     else (set_children node (Some (children[i := child'])), sz', True))
                | (child', sz', False) \<Rightarrow> (node, sz, False))))"

definition erase :: "'v Trie \<Rightarrow> string \<Rightarrow> 'v Trie \<times> bool" where
  "erase t key =
     (case erase_recursive (m_root t) key (m_size t) of
        (root', sz', r) \<Rightarrow> (\<lparr>m_root = root', m_size = sz'\<rparr>, r))"

subsection \<open>Size and capacity\<close>

definition size_Trie :: "'v Trie \<Rightarrow> 64 word" where
  "size_Trie t = m_size t"

definition empty_Trie :: "'v Trie \<Rightarrow> bool" where
  "empty_Trie t = (m_size t = 0)"

text \<open>\<open>clear\<close>: the root's children are reset and the counter is zeroed; nothing else is written.\<close>

definition clear :: "'v Trie \<Rightarrow> 'v Trie" where
  "clear t = \<lparr>m_root = set_children (m_root t) None, m_size = 0\<rparr>"

subsection \<open>Sequences of calls\<close>

text \<open>
  A write through the reference that \<open>operator[]\<close> returned, \<open>trie[key] = v\<close> as in
  the sample program: the path of the key exists after the subscript, and the value
  at its end is overwritten. References from \<open>at\<close>, \<open>find\<close> and \<open>insert\<close> point to
  the same place for a stored key.
\<close>

definition assign :: "'v \<Rightarrow> 'v Trie \<Rightarrow> string \<Rightarrow> 'v \<Rightarrow> 'v Trie" where
  "assign dflt t key v =
     (case subscript dflt t key of
        (t', old) \<Rightarrow>
          \<lparr>m_root = fst (walk_create (\<lambda>node. (set_value node (Some v), ())) (m_root t') key),
           m_size = m_size t'\<rparr>)"

text \<open>The public operations, and the state a caller reaches from the constructor.\<close>

datatype 'v call =
    Subscript string
  | Assign string 'v
  | Insert string 'v
  | At string
  | Find string
  | Contains string
  | Erase string
  | Clear

fun step :: "'v \<Rightarrow> 'v Trie \<Rightarrow> 'v call \<Rightarrow> 'v Trie" where
  "step dflt t (Subscript key) = fst (subscript dflt t key)"
| "step dflt t (Assign key v) = assign dflt t key v"
| "step dflt t (Insert key v) = fst (insert_Trie t (key, v))"
| "step dflt t (At key) = fst (at_Trie t key)"
| "step dflt t (Find key) = t"
| "step dflt t (Contains key) = t"
| "step dflt t (Erase key) = fst (erase t key)"
| "step dflt t Clear = clear t"

definition state_after :: "'v \<Rightarrow> 'v call list \<Rightarrow> 'v Trie" where
  "state_after dflt calls = foldl (step dflt) Trie_init calls"

subsection \<open>Notions of the specification\<close>

text \<open>
  The nodes at the element path of a key: every chain of children labelled by the
  successive key elements, whichever child the search would pick.
\<close>

fun nodes_at :: "'v TrieNode \<Rightarrow> string \<Rightarrow> 'v TrieNode list" where
  "nodes_at node [] = [node]"
| "nodes_at node (ch # key) =
     (case opt_children node of
        None \<Rightarrow> []
      | Some children \<Rightarrow>
          concat (map (\<lambda>child. nodes_at child key)
                      (filter (\<lambda>child. character child = ch) children)))"

definition path_exists :: "'v TrieNode \<Rightarrow> string \<Rightarrow> bool" where
  "path_exists node key = (nodes_at node key \<noteq> [])"

text \<open>No two children of one node share a character, anywhere in the subtree.\<close>

fun distinct_labels :: "'v TrieNode \<Rightarrow> bool" where
  "distinct_labels (TrieNode c None v) = True"
| "distinct_labels (TrieNode c (Some cs) v) =
     (distinct (map character cs) \<and> (\<forall>n \<in> set cs. distinct_labels n))"

text \<open>The number of nodes of a subtree whose value is present.\<close>

fun count_values :: "'v TrieNode \<Rightarrow> nat" where
  "count_values (TrieNode c None v) = (if v = None then 0 else 1)"
| "count_values (TrieNode c (Some cs) v) =
     (if v = None then 0 else 1) + sum_list (map count_values cs)"

text \<open>
  Dead weight: a node with no value whose children are absent or empty; and whether
  such a node lies strictly below a node.
\<close>

definition dead :: "'v TrieNode \<Rightarrow> bool" where
  "dead node = (opt_value node = None \<and> (opt_children node = None \<or> opt_children node = Some []))"

fun dead_below :: "'v TrieNode \<Rightarrow> bool" where
  "dead_below (TrieNode c None v) = False"
| "dead_below (TrieNode c (Some cs) v) = (\<exists>n \<in> set cs. dead n \<or> dead_below n)"

text \<open>The counter agrees with the number of stored values, as a \<open>size_t\<close>.\<close>

definition size_counts :: "'v Trie \<Rightarrow> bool" where
  "size_counts t = (m_size t = of_nat (count_values (m_root t)))"

text \<open>No node of the subtree has a children vector that is present and empty.\<close>

fun no_empty_children :: "'v TrieNode \<Rightarrow> bool" where
  "no_empty_children (TrieNode c None v) = True"
| "no_empty_children (TrieNode c (Some cs) v) = (cs \<noteq> [] \<and> (\<forall>n \<in> set cs. no_empty_children n))"

text \<open>The calls that can store a value at the empty key, that is, in the root node.\<close>

fun writes_empty_key :: "'v call \<Rightarrow> bool" where
  "writes_empty_key (Subscript key) = (key = [])"
| "writes_empty_key (Assign key v) = (key = [])"
| "writes_empty_key (Insert key v) = (key = [])"
| "writes_empty_key c = False"

text \<open>
  The node at which the loop of \<open>walk_create\<close> ends: the node the search finds, or the
  fresh node made for the last key element.
\<close>

definition terminal :: "'v TrieNode \<Rightarrow> string \<Rightarrow> 'v TrieNode" where
  "terminal node key =
     (case find_node node key of Some n \<Rightarrow> n | None \<Rightarrow> new_node (last key))"

text \<open>The value the search reads at the end of a key's path, if any.\<close>

definition value_at :: "'v TrieNode \<Rightarrow> string \<Rightarrow> 'v option" where
  "value_at node key = (case find_node node key of None \<Rightarrow> None | Some n \<Rightarrow> opt_value n)"

subsection \<open>Traversal\<close>

text \<open>
  \<open>struct iterator\<close>: a stack of node and prefix pairs (the head of the list is the top)
  and the current pair. Node pointers are modelled by the nodes they point to; an
  iterator is only ever compared with the end iterator, whose stack is empty.
\<close>

record 'v iterator =
  stack :: "('v TrieNode \<times> string) list"
  current_pair :: "string \<times> 'v"

text \<open>\<open>iterator() = default\<close>: an empty stack and a value-initialised pair.\<close>

definition iterator_default :: "'v \<Rightarrow> 'v iterator" where
  "iterator_default dflt = \<lparr>stack = [], current_pair = ([], dflt)\<rparr>"

text \<open>
  The inner loop of \<open>advance\<close>: the children are pushed from the last to the first, each
  with the prefix extended by its character.
\<close>

definition push_children ::
  "'v TrieNode list \<Rightarrow> string \<Rightarrow> ('v TrieNode \<times> string) list \<Rightarrow> ('v TrieNode \<times> string) list" where
  "push_children children prefix st =
     fold (\<lambda>child s. (child, prefix @ [character child]) # s) (rev children) st"

text \<open>
  The number of nodes of a subtree, the measure under which the traversal ends; the
  three lemmas are what the termination proofs below need.
\<close>

fun node_count :: "'v TrieNode \<Rightarrow> nat" where
  "node_count (TrieNode c None v) = 1"
| "node_count (TrieNode c (Some cs) v) = Suc (sum_list (map node_count cs))"

definition stack_weight :: "('v TrieNode \<times> string) list \<Rightarrow> nat" where
  "stack_weight st = sum_list (map (\<lambda>e. node_count (fst e)) st)"

lemma stack_weight_push_children:
  "stack_weight (push_children cs prefix st) = sum_list (map node_count cs) + stack_weight st"
proof -
  have "fold (\<lambda>child s. (child, prefix @ [character child]) # s) xs st
        = map (\<lambda>child. (child, prefix @ [character child])) (rev xs) @ st" for xs
    by (induction xs arbitrary: st) simp_all
  then have "push_children cs prefix st
        = map (\<lambda>child. (child, prefix @ [character child])) cs @ st"
    by (simp add: push_children_def)
  then show ?thesis
    by (simp add: stack_weight_def comp_def)
qed

lemma node_count_children:
  "opt_children node = Some cs \<Longrightarrow> sum_list (map node_count cs) < node_count node"
  by (cases node) simp

text \<open>
  \<open>advance\<close>: pops until a node with a value is found; that node's pair becomes the
  current pair and the function returns. When the stack runs empty the loop ends (the
  final \<open>stack = {}\<close> leaves it empty).
\<close>

function advance_loop ::
  "('v TrieNode \<times> string) list \<Rightarrow> string \<times> 'v \<Rightarrow> ('v TrieNode \<times> string) list \<times> (string \<times> 'v)" where
  "advance_loop [] cur = ([], cur)"
| "advance_loop ((node, prefix) # st) cur =
     (case opt_value node of
        Some v \<Rightarrow>
          ((case opt_children node of
              None \<Rightarrow> st
            | Some children \<Rightarrow> push_children children prefix st),
           (prefix, v))
      | None \<Rightarrow>
          advance_loop
            (case opt_children node of
               None \<Rightarrow> st
             | Some children \<Rightarrow> push_children children prefix st)
            cur)"
  by pat_completeness auto
termination
proof (relation "measure (\<lambda>(st, cur). stack_weight st)")
  show "wf (measure (\<lambda>(st, cur). stack_weight st))"
    by simp
next
  fix node :: "'v TrieNode" and prefix st and cur :: "string \<times> 'v"
  assume "opt_value node = None"
  have "stack_weight (case opt_children node of None \<Rightarrow> st
                      | Some children \<Rightarrow> push_children children prefix st)
        < stack_weight ((node, prefix) # st)"
  proof (cases "opt_children node")
    case None
    then show ?thesis
      by (cases node) (simp add: stack_weight_def)
  next
    case (Some cs)
    with node_count_children [OF Some] show ?thesis
      by (simp add: stack_weight_push_children) (simp add: stack_weight_def)
  qed
  then show "((case opt_children node of None \<Rightarrow> st
               | Some children \<Rightarrow> push_children children prefix st, cur),
              (node, prefix) # st, cur) \<in> measure (\<lambda>(st, cur). stack_weight st)"
    by simp
qed

definition advance :: "'v iterator \<Rightarrow> 'v iterator" where
  "advance it =
     (case advance_loop (stack it) (current_pair it) of
        (st, cur) \<Rightarrow> \<lparr>stack = st, current_pair = cur\<rparr>)"

text \<open>\<open>iterator(root)\<close> for a non-null root: the root is pushed with the empty prefix, then \<open>advance()\<close>.\<close>

definition iterator_at :: "'v \<Rightarrow> 'v TrieNode \<Rightarrow> 'v iterator" where
  "iterator_at dflt root = advance ((iterator_default dflt)\<lparr>stack := [(root, [])]\<rparr>)"

text \<open>
  \<open>operator++\<close> is \<open>advance\<close>. \<open>operator==\<close> compares the two stacks, entries of
  node pointer and prefix. Only the comparison with \<open>end()\<close> is modelled: \<open>end()\<close> has
  the empty stack, and a stack equals the empty one exactly when it is empty itself,
  so that no node pointer is compared.
\<close>

definition is_end :: "'v iterator \<Rightarrow> bool" where
  "is_end it = (stack it = [])"

text \<open>\<open>begin()\<close> and \<open>end()\<close>: both return \<open>iterator()\<close>.\<close>

definition begin_Trie :: "'v \<Rightarrow> 'v Trie \<Rightarrow> 'v iterator" where
  "begin_Trie dflt t = iterator_default dflt"

definition end_Trie :: "'v \<Rightarrow> 'v Trie \<Rightarrow> 'v iterator" where
  "end_Trie dflt t = iterator_default dflt"

lemma advance_loop_weight:
  "st \<noteq> [] \<Longrightarrow> stack_weight (fst (advance_loop st cur)) < stack_weight st"
proof (induction st cur rule: advance_loop.induct)
  case (1 cur)
  then show ?case by simp
next
  case (2 node prefix st cur)
  let ?st' = "case opt_children node of None \<Rightarrow> st
              | Some children \<Rightarrow> push_children children prefix st"
  have less: "stack_weight ?st' < stack_weight ((node, prefix) # st)"
  proof (cases "opt_children node")
    case None
    then show ?thesis
      by (cases node) (simp add: stack_weight_def)
  next
    case (Some cs)
    with node_count_children [OF Some] show ?thesis
      by (simp add: stack_weight_push_children) (simp add: stack_weight_def)
  qed
  show ?case
  proof (cases "opt_value node")
    case (Some v)
    with less show ?thesis by simp
  next
    case None
    show ?thesis
    proof (cases "?st' = []")
      case True
      with None less show ?thesis by simp
    next
      case False
      with "2.IH" [OF None] None less show ?thesis by simp
    qed
  qed
qed

text \<open>
  The caller's loop \<open>for (it = first; it != end(); ++it) out.push_back(*it)\<close>. It ends
  because each \<open>advance\<close> on a stack that is not empty makes the stack lighter.
\<close>

function collect_from :: "'v iterator \<Rightarrow> (string \<times> 'v) list" where
  "collect_from it =
     (if is_end it then []
      else current_pair it # collect_from (advance it))"
  by pat_completeness auto
termination
proof (relation "measure (\<lambda>it. stack_weight (stack it))")
  show "wf (measure (\<lambda>it. stack_weight (stack it)))"
    by simp
next
  fix it :: "'v iterator"
  assume "\<not> is_end it"
  then have "stack it \<noteq> []"
    by (simp add: is_end_def)
  then have "stack_weight (fst (advance_loop (stack it) (current_pair it))) < stack_weight (stack it)"
    by (rule advance_loop_weight)
  then show "(advance it, it) \<in> measure (\<lambda>it. stack_weight (stack it))"
    by (auto simp: advance_def split: prod.splits)
qed

text \<open>Iterating the container from \<open>begin()\<close> to \<open>end()\<close>.\<close>

definition iterate :: "'v \<Rightarrow> 'v Trie \<Rightarrow> (string \<times> 'v) list" where
  "iterate dflt t = collect_from (begin_Trie dflt t)"

section \<open>Properties\<close>

subsection \<open>Field assignments and vector helpers\<close>

lemma character_set_children [simp]: "character (set_children n cs) = character n"
  by (simp add: set_children_def)
lemma opt_children_set_children [simp]: "opt_children (set_children n cs) = cs"
  by (simp add: set_children_def)
lemma opt_value_set_children [simp]: "opt_value (set_children n cs) = opt_value n"
  by (simp add: set_children_def)
lemma character_set_value [simp]: "character (set_value n v) = character n"
  by (simp add: set_value_def)
lemma opt_children_set_value [simp]: "opt_children (set_value n v) = opt_children n"
  by (simp add: set_value_def)
lemma opt_value_set_value [simp]: "opt_value (set_value n v) = v"
  by (simp add: set_value_def)
lemma set_children_same [simp]: "set_children n (opt_children n) = n"
  by (cases n) (simp add: set_children_def)
lemma set_value_same [simp]: "set_value n (opt_value n) = n"
  by (cases n) (simp add: set_value_def)

lemma find_if_Some: "find_if P xs = Some i \<Longrightarrow> i < length xs \<and> P (xs ! i)"
proof (induction xs arbitrary: i)
  case Nil
  then show ?case by simp
next
  case (Cons x xs)
  then show ?case by (cases "P x") auto
qed

lemma find_if_None: "find_if P xs = None \<longleftrightarrow> (\<forall>x\<in>set xs. \<not> P x)"
  by (induction xs) auto

lemma find_if_update:
  "find_if P xs = Some i \<Longrightarrow> P y \<Longrightarrow> find_if P (xs[i := y]) = Some i"
proof (induction xs arbitrary: i)
  case Nil
  then show ?case by simp
next
  case (Cons x xs)
  then show ?case by (cases "P x") auto
qed

lemma find_if_append_new:
  "find_if P xs = None \<Longrightarrow> P y \<Longrightarrow> find_if P (xs @ [y]) = Some (length xs)"
  by (induction xs) (auto split: if_splits)

text \<open>A \<open>size_t\<close> counter steps by one as a number unless it wraps around.\<close>

lemma size_t_decrement: "(w :: 64 word) \<noteq> 0 \<Longrightarrow> unat (w - 1) + 1 = unat w"
  by (simp add: unat_minus_one unat_gt_0 Suc_leI)

lemma size_t_increment: "(w :: 64 word) \<noteq> - 1 \<Longrightarrow> unat (w + 1) = unat w + 1"
proof -
  assume "w \<noteq> - 1"
  then have "1 + w \<noteq> 0"
    using max_word_wrap [of w] by (auto simp: add.commute)
  from unatSuc [OF this] show ?thesis
    by (simp add: add.commute)
qed

subsection \<open>The insertion walk\<close>

lemma find_node_new_node:
  "find_node (new_node ch) key = (if key = [] then Some (new_node ch) else None)"
  by (cases key) (simp_all add: new_node_def)

lemma walk_create_character:
  "(\<And>n. character (fst (fin n)) = character n) \<Longrightarrow>
   character (fst (walk_create fin node key)) = character node"
  by (cases key) (auto simp: Let_def split: option.splits prod.splits)

lemma walk_create_terminal:
  assumes fin: "\<And>n. character (fst (fin n)) = character n"
  shows "find_node (fst (walk_create fin node key)) key = Some (fst (fin (terminal node key)))
       \<and> snd (walk_create fin node key) = snd (fin (terminal node key))"
proof (induction key arbitrary: node)
  case Nil
  then show ?case by (simp add: terminal_def)
next
  case (Cons ch key)
  let ?cs = "case opt_children node of None \<Rightarrow> [] | Some cs \<Rightarrow> cs"
  show ?case
  proof (cases "find_if (\<lambda>child. character child = ch) ?cs")
    case None
    obtain child' r where w: "walk_create fin (new_node ch) key = (child', r)"
      by (cases "walk_create fin (new_node ch) key")
    have ch': "character child' = ch"
      using walk_create_character [of fin "new_node ch" key, OF fin] w
      by (simp add: new_node_def)
    have t: "terminal node (ch # key) = terminal (new_node ch) key"
      using None by (auto simp: terminal_def find_node_new_node split: option.splits)
    from Cons.IH [of "new_node ch"] w None ch' t show ?thesis
      by (simp add: find_if_append_new Let_def)
  next
    case (Some i)
    obtain child' r where w: "walk_create fin (?cs ! i) key = (child', r)"
      by (cases "walk_create fin (?cs ! i) key")
    have i: "i < length ?cs" "character (?cs ! i) = ch"
      using find_if_Some [OF Some] by auto
    have ch': "character child' = ch"
      using walk_create_character [of fin "?cs ! i" key, OF fin] w i by simp
    have ne: "opt_children node \<noteq> None"
      using Some by (auto split: option.splits)
    have t: "terminal node (ch # key) = terminal (?cs ! i) key"
      using Some ne by (auto simp: terminal_def split: option.splits)
    from Cons.IH [of "?cs ! i"] w Some ch' t i show ?thesis
      by (simp add: find_if_update Let_def)
  qed
qed

lemma find_Trie_value_at: "find_Trie t key = value_at (m_root t) key"
  by (simp add: find_Trie_def value_at_def)

lemma value_at_terminal: "value_at node key = opt_value (terminal node key)"
  by (auto simp: value_at_def terminal_def new_node_def split: option.splits)

lemma walk_create_unchanged:
  "find_node node key = Some n \<Longrightarrow> fst (fin n) = n \<Longrightarrow> fst (walk_create fin node key) = node"
proof (induction key arbitrary: node)
  case Nil
  then show ?case by simp
next
  case (Cons ch key)
  from Cons.prems(1) obtain cs i where
    cs: "opt_children node = Some cs" and
    i: "find_if (\<lambda>child. character child = ch) cs = Some i" and
    f: "find_node (cs ! i) key = Some n"
    by (auto split: option.splits)
  from Cons.IH [OF f Cons.prems(2)] have "fst (walk_create fin (cs ! i) key) = cs ! i" .
  moreover have "set_children node (Some cs) = node"
    using cs set_children_same [of node] by simp
  ultimately show ?case
    using cs i by (cases "walk_create fin (cs ! i) key") (simp add: Let_def)
qed


subsection \<open>Erase\<close>

lemma erase_recursive_character:
  "character (fst (erase_recursive node key sz)) = character node"
  by (cases key) (auto split: option.splits prod.splits bool.splits)

lemma erase_recursive_flag:
  "snd (snd (erase_recursive node key sz)) = (value_at node key \<noteq> None)"
proof (induction key arbitrary: node)
  case Nil
  then show ?case by (simp add: value_at_def)
next
  case (Cons ch key)
  show ?case
  proof (cases "opt_children node")
    case None
    then show ?thesis by (simp add: value_at_def)
  next
    case (Some cs)
    show ?thesis
    proof (cases "find_if (\<lambda>child. character child = ch) cs")
      case None
      with Some show ?thesis by (simp add: value_at_def)
    next
      case i: (Some i)
      from Cons.IH [of "cs ! i"] Some i show ?thesis
        by (auto simp: value_at_def split: prod.splits bool.splits)
    qed
  qed
qed

lemma erase_recursive_False:
  "\<not> snd (snd (erase_recursive node key sz)) \<Longrightarrow> erase_recursive node key sz = (node, sz, False)"
  by (cases key) (auto split: option.splits prod.splits bool.splits if_splits)

lemma erase_recursive_Cons:
  "opt_children node = Some cs \<Longrightarrow> find_if (\<lambda>child. character child = ch) cs = Some i \<Longrightarrow>
   erase_recursive (cs ! i) key sz = (child', sz', b) \<Longrightarrow>
   erase_recursive node (ch # key) sz =
     (if b then
        (if opt_children child' = Some [] \<and> opt_value child' = None
         then (set_children node (Some (erase_at i cs)), sz', True)
         else (set_children node (Some (cs[i := child'])), sz', True))
      else (node, sz, False))"
  by simp

lemma erase_recursive_size:
  "snd (snd (erase_recursive node key sz)) \<Longrightarrow> fst (snd (erase_recursive node key sz)) = sz - 1"
proof (induction key arbitrary: node)
  case Nil
  then show ?case by (simp split: if_splits)
next
  case (Cons ch key)
  from Cons.prems obtain cs where cs: "opt_children node = Some cs"
    by (cases "opt_children node") auto
  from Cons.prems cs obtain i where i: "find_if (\<lambda>child. character child = ch) cs = Some i"
    by (cases "find_if (\<lambda>child. character child = ch) cs") auto
  obtain child' sz' b where r: "erase_recursive (cs ! i) key sz = (child', sz', b)"
    by (cases "erase_recursive (cs ! i) key sz")
  from Cons.prems have b: "b"
    unfolding erase_recursive_Cons [OF cs i r] by (simp split: if_splits)
  with Cons.IH [of "cs ! i"] r have "sz' = sz - 1" by simp
  with b show ?case
    unfolding erase_recursive_Cons [OF cs i r] by simp
qed

subsection \<open>Distinct sibling labels\<close>

lemma distinct_labels_iff:
  "distinct_labels node =
     (case opt_children node of
        None \<Rightarrow> True
      | Some cs \<Rightarrow> distinct (map character cs) \<and> (\<forall>n \<in> set cs. distinct_labels n))"
  by (cases node; cases "opt_children node") simp_all

lemma distinct_labels_children:
  "distinct_labels node \<Longrightarrow> opt_children node = Some cs \<Longrightarrow>
   distinct (map character cs) \<and> (\<forall>n \<in> set cs. distinct_labels n)"
  by (simp add: distinct_labels_iff)

lemma distinct_labels_set_children:
  "distinct (map character cs) \<Longrightarrow> (\<forall>n \<in> set cs. distinct_labels n) \<Longrightarrow>
   distinct_labels (set_children node (Some cs))"
  by (simp add: distinct_labels_iff)

lemma distinct_labels_set_value [simp]:
  "distinct_labels (set_value node v) = distinct_labels node"
  by (simp add: distinct_labels_iff)

lemma distinct_labels_new_node [simp]: "distinct_labels (new_node ch)"
  by (simp add: new_node_def)

lemma map_character_update:
  "i < length cs \<Longrightarrow> character y = character (cs ! i) \<Longrightarrow>
   map character (cs[i := y]) = map character cs"
  by (simp add: map_update list_update_same_conv)

lemma erase_at_simps [simp]:
  "erase_at i [] = []"
  "erase_at 0 (x # xs) = xs"
  "erase_at (Suc i) (x # xs) = x # erase_at i xs"
  by (simp_all add: erase_at_def)

lemma set_erase_at: "set (erase_at i xs) \<subseteq> set xs"
proof (induction xs arbitrary: i)
  case Nil
  then show ?case by simp
next
  case (Cons x xs)
  then show ?case by (cases i) auto
qed

lemma map_erase_at: "map f (erase_at i xs) = erase_at i (map f xs)"
  by (simp add: erase_at_def take_map drop_map)

lemma distinct_erase_at: "distinct xs \<Longrightarrow> distinct (erase_at i xs)"
proof (induction xs arbitrary: i)
  case Nil
  then show ?case by simp
next
  case (Cons x xs)
  then show ?case
    using set_erase_at by (cases i) fastforce+
qed

lemma find_if_erase_at_distinct:
  "distinct (map f xs) \<Longrightarrow> find_if (\<lambda>x. f x = a) xs = Some i \<Longrightarrow>
   find_if (\<lambda>x. f x = a) (erase_at i xs) = None"
proof (induction xs arbitrary: i)
  case Nil
  then show ?case by simp
next
  case (Cons x xs)
  show ?case
  proof (cases "f x = a")
    case True
    with Cons.prems have "i = 0" by simp
    moreover from Cons.prems(1) have "f x \<notin> f ` set xs" by simp
    with True have "\<forall>y \<in> set xs. f y \<noteq> a" by (metis imageI)
    ultimately show ?thesis by (simp add: find_if_None)
  next
    case False
    with Cons.prems obtain j where "i = Suc j" "find_if (\<lambda>x. f x = a) xs = Some j"
      by auto
    with Cons.IH [of j] Cons.prems(1) False show ?thesis by simp
  qed
qed

lemma filter_distinct_find_if:
  "distinct (map f xs) \<Longrightarrow>
   filter (\<lambda>x. f x = a) xs = (case find_if (\<lambda>x. f x = a) xs of None \<Rightarrow> [] | Some i \<Rightarrow> [xs ! i])"
proof (induction xs)
  case Nil
  then show ?case by simp
next
  case (Cons x xs)
  show ?case
  proof (cases "f x = a")
    case True
    from Cons.prems have "f x \<notin> f ` set xs" by simp
    with True have "\<forall>y \<in> set xs. f y \<noteq> a" by (metis imageI)
    then have "filter (\<lambda>x. f x = a) xs = []" by (simp add: filter_empty_conv)
    with True show ?thesis by simp
  next
    case False
    with Cons show ?thesis by (simp split: option.splits)
  qed
qed

lemma nodes_at_find_node:
  "distinct_labels node \<Longrightarrow>
   nodes_at node key = (case find_node node key of None \<Rightarrow> [] | Some n \<Rightarrow> [n])"
proof (induction key arbitrary: node)
  case Nil
  then show ?case by simp
next
  case (Cons ch key)
  show ?case
  proof (cases "opt_children node")
    case None
    then show ?thesis by simp
  next
    case (Some cs)
    from distinct_labels_children [OF Cons.prems Some]
    have d: "distinct (map character cs)" and sub: "\<forall>n \<in> set cs. distinct_labels n"
      by simp_all
    show ?thesis
    proof (cases "find_if (\<lambda>child. character child = ch) cs")
      case None
      with Some d show ?thesis by (simp add: filter_distinct_find_if)
    next
      case i: (Some i)
      from find_if_Some [OF i] sub have "distinct_labels (cs ! i)" by simp
      from Cons.IH [OF this] Some d i show ?thesis
        by (simp add: filter_distinct_find_if)
    qed
  qed
qed

lemma walk_create_distinct_labels:
  assumes ch: "\<And>n. character (fst (fin n)) = character n"
    and dl: "\<And>n. distinct_labels n \<Longrightarrow> distinct_labels (fst (fin n))"
  shows "distinct_labels node \<Longrightarrow> distinct_labels (fst (walk_create fin node key))"
proof (induction key arbitrary: node)
  case Nil
  then show ?case by (simp add: dl)
next
  case (Cons c key)
  define cs where "cs = (case opt_children node of None \<Rightarrow> [] | Some cs \<Rightarrow> cs)"
  have d: "distinct (map character cs)" and sub: "\<forall>n \<in> set cs. distinct_labels n"
    using Cons.prems by (auto simp: cs_def distinct_labels_iff [of node] split: option.splits)
  show ?case
  proof (cases "find_if (\<lambda>child. character child = c) cs")
    case None
    obtain child' r where w: "walk_create fin (new_node c) key = (child', r)"
      by (cases "walk_create fin (new_node c) key")
    have c': "character child' = c"
      using walk_create_character [of fin "new_node c" key, OF ch] w
      by (simp add: new_node_def)
    have "distinct_labels child'"
      using Cons.IH [of "new_node c"] w by simp
    moreover have "c \<notin> set (map character cs)"
      using None by (auto simp: find_if_None)
    ultimately have "distinct_labels (set_children node (Some (cs @ [child'])))"
      using d sub c' by (intro distinct_labels_set_children) auto
    with None w show ?thesis by (simp add: Let_def cs_def [symmetric])
  next
    case (Some i)
    obtain child' r where w: "walk_create fin (cs ! i) key = (child', r)"
      by (cases "walk_create fin (cs ! i) key")
    have i: "i < length cs" "character (cs ! i) = c"
      using find_if_Some [OF Some] by auto
    have c': "character child' = character (cs ! i)"
      using walk_create_character [of fin "cs ! i" key, OF ch] w by simp
    have "distinct_labels (cs ! i)"
      using sub i by simp
    with Cons.IH [of "cs ! i"] w have "distinct_labels child'"
      by simp
    then have "\<forall>n \<in> set (cs[i := child']). distinct_labels n"
      using sub set_update_subset_insert [of cs i child'] by auto
    then have "distinct_labels (set_children node (Some (cs[i := child'])))"
      using d i c' by (intro distinct_labels_set_children) (simp_all add: map_character_update)
    with Some w show ?thesis by (simp add: Let_def cs_def [symmetric])
  qed
qed

lemma erase_recursive_distinct_labels:
  "distinct_labels node \<Longrightarrow> distinct_labels (fst (erase_recursive node key sz))"
proof (induction key arbitrary: node)
  case Nil
  then show ?case by simp
next
  case (Cons ch key)
  show ?case
  proof (cases "opt_children node")
    case None
    with Cons.prems show ?thesis by simp
  next
    case (Some cs)
    from distinct_labels_children [OF Cons.prems Some]
    have d: "distinct (map character cs)" and sub: "\<forall>n \<in> set cs. distinct_labels n"
      by simp_all
    show ?thesis
    proof (cases "find_if (\<lambda>child. character child = ch) cs")
      case None
      with Some Cons.prems show ?thesis by simp
    next
      case i: (Some i)
      obtain child' sz' b where r: "erase_recursive (cs ! i) key sz = (child', sz', b)"
        by (cases "erase_recursive (cs ! i) key sz")
      have il: "i < length cs" using find_if_Some [OF i] by simp
      have c': "character child' = character (cs ! i)"
        using erase_recursive_character [of "cs ! i" key sz] r by simp
      have dc: "distinct_labels child'"
        using Cons.IH [of "cs ! i"] r il sub by simp
      have 1: "distinct_labels (set_children node (Some (erase_at i cs)))"
        using d sub set_erase_at [of i cs]
        by (intro distinct_labels_set_children) (auto simp: map_erase_at distinct_erase_at)
      have "\<forall>n \<in> set (cs[i := child']). distinct_labels n"
        using sub dc set_update_subset_insert [of cs i child'] by auto
      then have 2: "distinct_labels (set_children node (Some (cs[i := child'])))"
        using d il c' by (intro distinct_labels_set_children) (simp_all add: map_character_update)
      from 1 2 Cons.prems show ?thesis
        unfolding erase_recursive_Cons [OF Some i r] by simp
    qed
  qed
qed

lemma erase_recursive_value_gone:
  "distinct_labels node \<Longrightarrow> snd (snd (erase_recursive node key sz)) \<Longrightarrow>
   value_at (fst (erase_recursive node key sz)) key = None"
proof (induction key arbitrary: node)
  case Nil
  then show ?case by (simp add: value_at_def split: if_splits)
next
  case (Cons ch key)
  from Cons.prems(2) obtain cs where cs: "opt_children node = Some cs"
    by (cases "opt_children node") auto
  from Cons.prems(2) cs obtain i where i: "find_if (\<lambda>child. character child = ch) cs = Some i"
    by (cases "find_if (\<lambda>child. character child = ch) cs") auto
  obtain child' sz' b where r: "erase_recursive (cs ! i) key sz = (child', sz', b)"
    by (cases "erase_recursive (cs ! i) key sz")
  from Cons.prems(2) have b: "b"
    unfolding erase_recursive_Cons [OF cs i r] by (simp split: if_splits)
  from distinct_labels_children [OF Cons.prems(1) cs]
  have d: "distinct (map character cs)" and sub: "\<forall>n \<in> set cs. distinct_labels n"
    by simp_all
  have il: "i < length cs" and ci: "character (cs ! i) = ch"
    using find_if_Some [OF i] by simp_all
  have c': "character child' = ch"
    using erase_recursive_character [of "cs ! i" key sz] r ci by simp
  have gone: "value_at child' key = None"
    using Cons.IH [of "cs ! i"] r b il sub by simp
  show ?case
  proof (cases "opt_children child' = Some [] \<and> opt_value child' = None")
    case True
    with b have "fst (erase_recursive node (ch # key) sz) = set_children node (Some (erase_at i cs))"
      unfolding erase_recursive_Cons [OF cs i r] by simp
    then show ?thesis
      by (simp add: value_at_def find_if_erase_at_distinct [OF d i])
  next
    case False
    with b have "fst (erase_recursive node (ch # key) sz) = set_children node (Some (cs[i := child']))"
      unfolding erase_recursive_Cons [OF cs i r] by auto
    with gone il show ?thesis
      by (simp add: value_at_def find_if_update [OF i c'])
  qed
qed

subsection \<open>States a caller can reach\<close>

lemma m_root_find_or_insert:
  "m_root (fst (find_or_insert dflt t key)) =
     fst (walk_create
            (\<lambda>node. case opt_value node of
                       None \<Rightarrow> (set_value node (Some dflt), (m_size t + 1, dflt))
                     | Some v \<Rightarrow> (node, (m_size t, v)))
            (m_root t) key)"
  by (auto simp: find_or_insert_def split: prod.splits)

lemma m_root_insert_Trie:
  "m_root (fst (insert_Trie t (key, v))) =
     fst (walk_create
            (\<lambda>node. case opt_value node of
                       None \<Rightarrow> (set_value node (Some v), (m_size t + 1, (v, True)))
                     | Some v' \<Rightarrow> (node, (m_size t, (v', False))))
            (m_root t) key)"
  by (auto simp: insert_Trie.simps split: prod.splits)

lemma m_root_erase: "m_root (fst (erase t key)) = fst (erase_recursive (m_root t) key (m_size t))"
  by (auto simp: erase_def split: prod.splits)

lemma fst_at_Trie: "fst (at_Trie t key) = t"
  by (simp add: at_Trie_def split: option.splits)

lemma find_or_insert_distinct_labels:
  "distinct_labels (m_root t) \<Longrightarrow> distinct_labels (m_root (fst (find_or_insert dflt t key)))"
  unfolding m_root_find_or_insert
  by (rule walk_create_distinct_labels) (simp_all split: option.splits)

lemma insert_Trie_distinct_labels:
  "distinct_labels (m_root t) \<Longrightarrow> distinct_labels (m_root (fst (insert_Trie t (key, v))))"
  unfolding m_root_insert_Trie
  by (rule walk_create_distinct_labels) (simp_all split: option.splits)

lemma assign_distinct_labels:
  "distinct_labels (m_root t) \<Longrightarrow> distinct_labels (m_root (assign dflt t key v))"
proof -
  assume "distinct_labels (m_root t)"
  then have "distinct_labels (m_root (fst (find_or_insert dflt t key)))"
    by (rule find_or_insert_distinct_labels)
  then have "distinct_labels
      (fst (walk_create (\<lambda>node. (set_value node (Some v), ()))
              (m_root (fst (find_or_insert dflt t key))) key))"
    by (rule walk_create_distinct_labels [rotated 2]) simp_all
  then show ?thesis
    by (auto simp: assign_def subscript_def split: prod.splits)
qed

lemma step_distinct_labels:
  "distinct_labels (m_root t) \<Longrightarrow> distinct_labels (m_root (step dflt t c))"
proof (cases c)
  case (Subscript key)
  assume "distinct_labels (m_root t)"
  with Subscript show ?thesis
    by (simp add: subscript_def find_or_insert_distinct_labels)
next
  case (Assign key v)
  assume "distinct_labels (m_root t)"
  with Assign show ?thesis
    by (simp add: assign_distinct_labels)
next
  case (Insert key v)
  assume "distinct_labels (m_root t)"
  with Insert show ?thesis
    by (simp add: insert_Trie_distinct_labels)
next
  case (At key)
  assume "distinct_labels (m_root t)"
  with At show ?thesis
    by (simp add: fst_at_Trie)
next
  case (Find key)
  assume "distinct_labels (m_root t)"
  with Find show ?thesis by simp
next
  case (Contains key)
  assume "distinct_labels (m_root t)"
  with Contains show ?thesis by simp
next
  case (Erase key)
  assume "distinct_labels (m_root t)"
  with Erase show ?thesis
    by (simp add: m_root_erase erase_recursive_distinct_labels)
next
  case Clear
  then show ?thesis
    by (simp add: clear_def distinct_labels_iff)
qed

lemma state_after_distinct_labels: "distinct_labels (m_root (state_after dflt calls))"
proof (induction calls rule: rev_induct)
  case Nil
  then show ?case by (simp add: state_after_def Trie_init_def)
next
  case (snoc c calls)
  then show ?case
    using step_distinct_labels [of "state_after dflt calls" dflt c]
    by (simp add: state_after_def)
qed

lemma erase_general:
  assumes "erase t k = (t', b)"
  shows "b = (find_Trie t k \<noteq> None)"
    and "b \<Longrightarrow> m_size t' = m_size t - 1"
    and "\<not> b \<Longrightarrow> t' = t"
    and "b \<Longrightarrow> distinct_labels (m_root t) \<Longrightarrow> find_Trie t' k = None"
proof -
  obtain root' sz' r where e: "erase_recursive (m_root t) k (m_size t) = (root', sz', r)"
    by (cases "erase_recursive (m_root t) k (m_size t)")
  with assms have t': "t' = \<lparr>m_root = root', m_size = sz'\<rparr>" and r: "r = b"
    by (simp_all add: erase_def)
  from erase_recursive_flag [of "m_root t" k "m_size t"] e r
  show "b = (find_Trie t k \<noteq> None)"
    by (simp add: find_Trie_value_at)
  show "m_size t' = m_size t - 1" if "b"
    using erase_recursive_size [of "m_root t" k "m_size t"] e r t' that by simp
  show "t' = t" if "\<not> b"
    using erase_recursive_False [of "m_root t" k "m_size t"] e r t' that by simp
  show "find_Trie t' k = None" if "b" "distinct_labels (m_root t)"
    using erase_recursive_value_gone [of "m_root t" k "m_size t"] e r t' that
    by (simp add: find_Trie_value_at)
qed

subsection \<open>Results of the insertion functions\<close>

lemma find_node_prefix:
  "find_node node (k @ s) \<noteq> None \<Longrightarrow> find_node node k \<noteq> None"
proof (induction k arbitrary: node)
  case Nil
  then show ?case by simp
next
  case (Cons ch k)
  then show ?case
    by (auto split: option.splits)
qed

lemma find_or_insert_general:
  assumes "find_or_insert dflt t k = (t', v)"
  shows "find_node (m_root t') k \<noteq> None"
    and "find_Trie t' k = Some v"
    and "find_Trie t k = None \<Longrightarrow> v = dflt \<and> m_size t' = m_size t + 1"
    and "find_Trie t k \<noteq> None \<Longrightarrow> find_Trie t k = Some v \<and> t' = t"
proof -
  let ?fin = "\<lambda>node. case opt_value node of
                       None \<Rightarrow> (set_value node (Some dflt), (m_size t + 1, dflt))
                     | Some v \<Rightarrow> (node, (m_size t, v))"
  let ?n = "terminal (m_root t) k"
  have ch: "\<And>n. character (fst (?fin n)) = character n"
    by (simp split: option.splits)
  note w = walk_create_terminal [of ?fin "m_root t" k, OF ch]
  obtain root' sz' where r: "walk_create ?fin (m_root t) k = (root', (sz', v))"
    and t': "t' = \<lparr>m_root = root', m_size = sz'\<rparr>"
    using assms by (auto simp: find_or_insert_def split: prod.splits)
  from w r have f: "find_node root' k = Some (fst (?fin ?n))" and s: "(sz', v) = snd (?fin ?n)"
    by simp_all
  from f t' show "find_node (m_root t') k \<noteq> None" by simp
  have old: "find_Trie t k = opt_value ?n"
    by (simp add: find_Trie_value_at value_at_terminal)
  from f s t' show "find_Trie t' k = Some v"
    by (cases "opt_value ?n") (auto simp: find_Trie_def)
  show "v = dflt \<and> m_size t' = m_size t + 1" if "find_Trie t k = None"
    using that old s t' by simp
  show "find_Trie t k = Some v \<and> t' = t" if "find_Trie t k \<noteq> None"
  proof -
    from that old obtain x where x: "opt_value ?n = Some x" by auto
    with s have v: "v = x" "sz' = m_size t" by simp_all
    from that obtain n where n: "find_node (m_root t) k = Some n"
      by (auto simp: find_Trie_def split: option.splits)
    then have "?n = n" by (simp add: terminal_def)
    with x have "fst (?fin n) = n" by simp
    from walk_create_unchanged [where fin = ?fin, OF n this] r have "root' = m_root t" by simp
    with v t' old x show ?thesis by simp
  qed
qed

lemma insert_Trie_general:
  assumes "insert_Trie t (k, v) = (t', (p, b))"
  shows "b = (find_Trie t k = None)"
    and "find_Trie t' k = Some p"
    and "b \<Longrightarrow> p = v \<and> m_size t' = m_size t + 1"
    and "\<not> b \<Longrightarrow> find_Trie t k = Some p \<and> t' = t"
proof -
  let ?fin = "\<lambda>node. case opt_value node of
                        None \<Rightarrow> (set_value node (Some v), (m_size t + 1, (v, True)))
                      | Some old \<Rightarrow> (node, (m_size t, (old, False)))"
  let ?n = "terminal (m_root t) k"
  have ch: "\<And>n. character (fst (?fin n)) = character n"
    by (simp split: option.splits)
  note w = walk_create_terminal [of ?fin "m_root t" k, OF ch]
  obtain root' sz' where r: "walk_create ?fin (m_root t) k = (root', (sz', (p, b)))"
    and t': "t' = \<lparr>m_root = root', m_size = sz'\<rparr>"
    using assms by (auto simp: insert_Trie.simps split: prod.splits)
  from w r have f: "find_node root' k = Some (fst (?fin ?n))" and s: "(sz', (p, b)) = snd (?fin ?n)"
    by simp_all
  have old: "find_Trie t k = opt_value ?n"
    by (simp add: find_Trie_value_at value_at_terminal)
  from s old show "b = (find_Trie t k = None)"
    by (cases "opt_value ?n") auto
  from f s t' show "find_Trie t' k = Some p"
    by (cases "opt_value ?n") (auto simp: find_Trie_def)
  show "p = v \<and> m_size t' = m_size t + 1" if "b"
    using that s t' by (cases "opt_value ?n") auto
  show "find_Trie t k = Some p \<and> t' = t" if "\<not> b"
  proof -
    from that s obtain x where x: "opt_value ?n = Some x"
      by (cases "opt_value ?n") auto
    with s have v: "p = x" "sz' = m_size t" by simp_all
    from x old obtain n where n: "find_node (m_root t) k = Some n"
      by (auto simp: find_Trie_def split: option.splits)
    then have "?n = n" by (simp add: terminal_def)
    with x have "fst (?fin n) = n" by simp
    from walk_create_unchanged [where fin = ?fin, OF n this] r have "root' = m_root t" by simp
    with v t' old x show ?thesis by simp
  qed
qed

subsection \<open>Writes through a reference, and the sample program\<close>

lemma find_after_assign: "find_Trie (assign dflt t k v) k = Some v"
proof -
  obtain t' old where e: "subscript dflt t k = (t', old)"
    by (cases "subscript dflt t k")
  have "find_node (fst (walk_create (\<lambda>node. (set_value node (Some v), ())) (m_root t') k)) k
        = Some (set_value (terminal (m_root t') k) (Some v))"
    using walk_create_terminal [of "\<lambda>node. (set_value node (Some v), ())" "m_root t'" k]
    by simp
  with e show ?thesis
    by (simp add: assign_def find_Trie_def)
qed

text \<open>
  \<open>main\<close> writes 5 through \<open>trie["applesauce"]\<close> and prints \<open>trie["applesauce"]\<close>: it
  prints 5. Both subscripts use the literal's array as the key, so the value sits
  below the node of \<open>"applesauce"\<close>, which itself holds none.
\<close>

lemma sample_program:
  "snd (subscript 0 (assign (0::int) Trie_init (c_literal ''applesauce'') 5) (c_literal ''applesauce'')) = 5"
  "find_Trie (assign (0::int) Trie_init (c_literal ''applesauce'') 5) ''applesauce'' = None"
  "snd (at_Trie (assign (0::int) Trie_init (c_literal ''applesauce'') 5) ''applesauce'') = Inl KeyNotFound"
  "contains (assign (0::int) Trie_init (c_literal ''applesauce'') 5) ''applesauce''"
  by code_simp+

subsection \<open>Traversal and clear\<close>

lemma end_Trie_is_end: "is_end (end_Trie dflt t)"
  by (simp add: is_end_def end_Trie_def iterator_default_def)

lemma iterate_empty: "iterate dflt t = []"
  by (simp add: iterate_def begin_Trie_def iterator_default_def is_end_def)

lemma clear_general:
  "size_Trie (clear t) = 0" "k \<noteq> [] \<Longrightarrow> \<not> contains (clear t) k"
  by (cases k; simp add: size_Trie_def clear_def contains_def)+

subsection \<open>The counter and the stored values\<close>

lemma sum_list_map_update:
  "i < length xs \<Longrightarrow>
   sum_list (map f (xs[i := y])) + f (xs ! i) = sum_list (map f xs) + (f y :: nat)"
proof (induction xs arbitrary: i)
  case Nil
  then show ?case by simp
next
  case (Cons x xs)
  show ?case
  proof (cases i)
    case 0
    then show ?thesis by simp
  next
    case (Suc j)
    with Cons.prems have "j < length xs" by simp
    from Cons.IH [OF this] Suc show ?thesis by simp
  qed
qed

lemma sum_list_map_erase_at:
  "i < length xs \<Longrightarrow>
   sum_list (map f (erase_at i xs)) + f (xs ! i) = (sum_list (map f xs) :: nat)"
proof (induction xs arbitrary: i)
  case Nil
  then show ?case by simp
next
  case (Cons x xs)
  show ?case
  proof (cases i)
    case 0
    then show ?thesis by simp
  next
    case (Suc j)
    with Cons.prems have "j < length xs" by simp
    from Cons.IH [OF this] Suc show ?thesis by simp
  qed
qed

lemma count_values_iff:
  "count_values node =
     (if opt_value node = None then 0 else 1)
     + (case opt_children node of None \<Rightarrow> 0 | Some cs \<Rightarrow> sum_list (map count_values cs))"
  by (cases node; cases "opt_children node") simp_all

lemma node_count_iff:
  "node_count node =
     (case opt_children node of None \<Rightarrow> 1 | Some cs \<Rightarrow> Suc (sum_list (map node_count cs)))"
  by (cases node; cases "opt_children node") simp_all

lemma no_empty_children_iff:
  "no_empty_children node =
     (case opt_children node of
        None \<Rightarrow> True
      | Some cs \<Rightarrow> cs \<noteq> [] \<and> (\<forall>n \<in> set cs. no_empty_children n))"
  by (cases node; cases "opt_children node") simp_all

lemma value_at_new_node: "value_at (new_node ch) key = None"
  by (simp add: value_at_def find_node_new_node) (simp add: new_node_def)

lemma walk_create_count_values:
  assumes fin: "\<And>n. count_values (fst (fin n)) = count_values n + (if opt_value n = None then 1 else 0)"
  shows "count_values (fst (walk_create fin node key))
         = count_values node + (if value_at node key = None then 1 else 0)"
proof (induction key arbitrary: node)
  case Nil
  then show ?case by (simp add: fin value_at_def)
next
  case (Cons ch key)
  define cs where "cs = (case opt_children node of None \<Rightarrow> [] | Some cs \<Rightarrow> cs)"
  have cn: "count_values node = (if opt_value node = None then 0 else 1) + sum_list (map count_values cs)"
    by (simp add: count_values_iff [of node] cs_def split: option.splits)
  show ?case
  proof (cases "find_if (\<lambda>child. character child = ch) cs")
    case None
    obtain child' r where w: "walk_create fin (new_node ch) key = (child', r)"
      by (cases "walk_create fin (new_node ch) key")
    from Cons.IH [of "new_node ch"] w have c: "count_values child' = 1"
      by (simp add: value_at_new_node) (simp add: new_node_def)
    have v: "value_at node (ch # key) = None"
      using None by (auto simp: value_at_def cs_def split: option.splits)
    have "fst (walk_create fin node (ch # key)) = set_children node (Some (cs @ [child']))"
      using None w by (simp add: Let_def cs_def [symmetric])
    with c v cn show ?thesis
      by (simp add: count_values_iff [of "set_children node (Some (cs @ [child']))"])
  next
    case (Some i)
    obtain child' r where w: "walk_create fin (cs ! i) key = (child', r)"
      by (cases "walk_create fin (cs ! i) key")
    have il: "i < length cs"
      using find_if_Some [OF Some] by simp
    from Cons.IH [of "cs ! i"] w
    have c: "count_values child' = count_values (cs ! i) + (if value_at (cs ! i) key = None then 1 else 0)"
      by simp
    have ne: "opt_children node = Some cs"
      using Some by (auto simp: cs_def split: option.splits)
    have v: "value_at node (ch # key) = value_at (cs ! i) key"
      using Some ne by (simp add: value_at_def)
    have "fst (walk_create fin node (ch # key)) = set_children node (Some (cs[i := child']))"
      using Some w by (simp add: Let_def cs_def [symmetric])
    with c v cn sum_list_map_update [OF il, of count_values child'] show ?thesis
      by (simp add: count_values_iff [of "set_children node (Some (cs[i := child']))"])
  qed
qed

lemma erase_recursive_count_values:
  "count_values (fst (erase_recursive node key sz))
     + (if snd (snd (erase_recursive node key sz)) then 1 else 0) = count_values node"
proof (induction key arbitrary: node)
  case Nil
  then show ?case
    by (simp add: count_values_iff [of "set_value node None"] count_values_iff [of node])
next
  case (Cons ch key)
  show ?case
  proof (cases "opt_children node")
    case None
    then show ?thesis by simp
  next
    case (Some cs)
    show ?thesis
    proof (cases "find_if (\<lambda>child. character child = ch) cs")
      case None
      with Some show ?thesis by simp
    next
      case i: (Some i)
      obtain child' sz' b where r: "erase_recursive (cs ! i) key sz = (child', sz', b)"
        by (cases "erase_recursive (cs ! i) key sz")
      have il: "i < length cs" using find_if_Some [OF i] by simp
      from Cons.IH [of "cs ! i"] r
      have c: "count_values child' + (if b then 1 else 0) = count_values (cs ! i)"
        by simp
      have cn: "count_values node = (if opt_value node = None then 0 else 1) + sum_list (map count_values cs)"
        using Some by (simp add: count_values_iff [of node])
      show ?thesis
      proof (cases b)
        case False
        then show ?thesis
          unfolding erase_recursive_Cons [OF Some i r] by simp
      next
        case True
        show ?thesis
        proof (cases "opt_children child' = Some [] \<and> opt_value child' = None")
          case prune: True
          then have "count_values child' = 0"
            by (simp add: count_values_iff [of child'])
          with c True sum_list_map_erase_at [OF il, of count_values] cn prune show ?thesis
            unfolding erase_recursive_Cons [OF Some i r]
            by (simp add: count_values_iff [of "set_children node (Some (erase_at i cs))"])
        next
          case keep: False
          with True have "erase_recursive node (ch # key) sz
                          = (set_children node (Some (cs[i := child'])), sz', True)"
            unfolding erase_recursive_Cons [OF Some i r] by auto
          with c True sum_list_map_update [OF il, of count_values child'] cn show ?thesis
            by (simp add: count_values_iff [of "set_children node (Some (cs[i := child']))"])
        qed
      qed
    qed
  qed
qed

lemma find_or_insert_m_size:
  "m_size (fst (find_or_insert dflt t k)) = (if find_Trie t k = None then m_size t + 1 else m_size t)"
proof -
  obtain t' v where e: "find_or_insert dflt t k = (t', v)"
    by (cases "find_or_insert dflt t k")
  from find_or_insert_general(3,4) [OF e] e show ?thesis
    by (cases "find_Trie t k = None") auto
qed

lemma insert_Trie_m_size:
  "m_size (fst (insert_Trie t (k, v))) = (if find_Trie t k = None then m_size t + 1 else m_size t)"
proof -
  obtain t' p b where e: "insert_Trie t (k, v) = (t', (p, b))"
    by (cases "insert_Trie t (k, v)") auto
  from insert_Trie_general(1,3,4) [OF e] e show ?thesis
    by (cases b) auto
qed

lemma find_or_insert_size_counts:
  "size_counts t \<Longrightarrow> size_counts (fst (find_or_insert dflt t k))"
proof -
  assume "size_counts t"
  moreover have "count_values (m_root (fst (find_or_insert dflt t k)))
        = count_values (m_root t) + (if value_at (m_root t) k = None then 1 else 0)"
    unfolding m_root_find_or_insert
    by (rule walk_create_count_values)
       (simp add: count_values_iff [of "set_value _ _"] count_values_iff [of "_ :: 'a TrieNode"]
             split: option.splits)
  ultimately show ?thesis
    by (simp add: size_counts_def find_or_insert_m_size find_Trie_value_at)
qed

lemma insert_Trie_size_counts:
  "size_counts t \<Longrightarrow> size_counts (fst (insert_Trie t (k, v)))"
proof -
  assume "size_counts t"
  moreover have "count_values (m_root (fst (insert_Trie t (k, v))))
        = count_values (m_root t) + (if value_at (m_root t) k = None then 1 else 0)"
    unfolding m_root_insert_Trie
    by (rule walk_create_count_values)
       (simp add: count_values_iff [of "set_value _ _"] count_values_iff [of "_ :: 'a TrieNode"]
             split: option.splits)
  ultimately show ?thesis
    by (simp add: size_counts_def insert_Trie_m_size find_Trie_value_at)
qed

lemma assign_size_counts:
  "size_counts t \<Longrightarrow> size_counts (assign dflt t k v)"
proof -
  assume "size_counts t"
  then have s: "size_counts (fst (find_or_insert dflt t k))"
    by (rule find_or_insert_size_counts)
  obtain t' old where e: "find_or_insert dflt t k = (t', old)"
    by (cases "find_or_insert dflt t k")
  from find_or_insert_general(2) [OF e] have stored: "value_at (m_root t') k \<noteq> None"
    by (simp add: find_Trie_value_at)
  have "count_values (fst (walk_create (\<lambda>node. (set_value node (Some v), ())) (m_root t') k))
        = count_values (m_root t') + (if value_at (m_root t') k = None then 1 else 0)"
    by (rule walk_create_count_values)
       (simp add: count_values_iff [of "set_value _ _"] count_values_iff [of "_ :: 'a TrieNode"])
  with stored s e show ?thesis
    by (simp add: assign_def subscript_def size_counts_def)
qed

lemma erase_size_counts:
  "size_counts t \<Longrightarrow> size_counts (fst (erase t k))"
proof -
  assume s: "size_counts t"
  obtain root' sz' b where e: "erase_recursive (m_root t) k (m_size t) = (root', sz', b)"
    by (cases "erase_recursive (m_root t) k (m_size t)")
  from erase_recursive_count_values [of "m_root t" k "m_size t"] e
  have c: "count_values root' + (if b then 1 else 0) = count_values (m_root t)"
    by simp
  show ?thesis
  proof (cases b)
    case True
    with erase_recursive_size [of "m_root t" k "m_size t"] e have "sz' = m_size t - 1"
      by simp
    moreover from c True have "count_values (m_root t) = Suc (count_values root')"
      by simp
    ultimately show ?thesis
      using s e by (simp add: size_counts_def erase_def)
  next
    case False
    with erase_recursive_False [of "m_root t" k "m_size t"] e s show ?thesis
      by (simp add: erase_def size_counts_def)
  qed
qed

lemma clear_size_counts:
  "opt_value (m_root t) = None \<Longrightarrow> size_counts (clear t)"
  by (simp add: size_counts_def clear_def count_values_iff [of "set_children _ _"])

lemma walk_create_opt_value:
  "opt_value (fst (walk_create fin node (ch # key))) = opt_value node"
  by (auto simp: Let_def split: option.splits prod.splits)

lemma erase_recursive_opt_value:
  "opt_value (fst (erase_recursive node key sz)) = None \<or>
   opt_value (fst (erase_recursive node key sz)) = opt_value node"
  by (cases key) (auto split: option.splits prod.splits bool.splits)

lemma step_root_value:
  "\<not> writes_empty_key c \<Longrightarrow> opt_value (m_root t) = None \<Longrightarrow>
   opt_value (m_root (step dflt t c)) = None"
proof (cases c)
  case (Subscript key)
  assume "\<not> writes_empty_key c" "opt_value (m_root t) = None"
  with Subscript show ?thesis
    by (cases key)
       (simp_all add: subscript_def m_root_find_or_insert walk_create_opt_value
          del: walk_create.simps)
next
  case (Assign key v)
  assume a: "\<not> writes_empty_key c" "opt_value (m_root t) = None"
  with Assign obtain ch rest where k: "key = ch # rest"
    by (cases key) auto
  have "opt_value (m_root (assign dflt t (ch # rest) v))
        = opt_value (m_root (fst (find_or_insert dflt t (ch # rest))))"
    by (auto simp: assign_def subscript_def walk_create_opt_value
          simp del: walk_create.simps split: prod.splits)
  with a Assign k show ?thesis
    by (simp add: m_root_find_or_insert walk_create_opt_value del: walk_create.simps)
next
  case (Insert key v)
  assume "\<not> writes_empty_key c" "opt_value (m_root t) = None"
  with Insert show ?thesis
    by (cases key)
       (simp_all add: m_root_insert_Trie walk_create_opt_value del: walk_create.simps)
next
  case (At key)
  assume "opt_value (m_root t) = None"
  with At show ?thesis by (simp add: fst_at_Trie)
next
  case (Find key)
  assume "opt_value (m_root t) = None"
  with Find show ?thesis by simp
next
  case (Contains key)
  assume "opt_value (m_root t) = None"
  with Contains show ?thesis by simp
next
  case (Erase key)
  assume "opt_value (m_root t) = None"
  with Erase erase_recursive_opt_value [of "m_root t" key "m_size t"] show ?thesis
    by (auto simp: m_root_erase)
next
  case Clear
  assume "opt_value (m_root t) = None"
  with Clear show ?thesis by (simp add: clear_def)
qed

lemma step_size_counts:
  "\<not> writes_empty_key c \<Longrightarrow> opt_value (m_root t) = None \<Longrightarrow> size_counts t \<Longrightarrow>
   size_counts (step dflt t c)"
  by (cases c)
     (simp_all add: subscript_def find_or_insert_size_counts assign_size_counts
        insert_Trie_size_counts fst_at_Trie erase_size_counts clear_size_counts)

lemma state_after_size_counts:
  "\<forall>c \<in> set calls. \<not> writes_empty_key c \<Longrightarrow>
   opt_value (m_root (state_after dflt calls)) = None \<and> size_counts (state_after dflt calls)"
proof (induction calls rule: rev_induct)
  case Nil
  then show ?case
    by (simp add: state_after_def Trie_init_def new_node_def size_counts_def)
next
  case (snoc c calls)
  then have "\<not> writes_empty_key c"
    and "opt_value (m_root (state_after dflt calls)) = None"
    and "size_counts (state_after dflt calls)"
    by simp_all
  from step_root_value [OF this(1,2)] step_size_counts [OF this] show ?case
    by (simp add: state_after_def)
qed


subsection \<open>Erase removes no node\<close>

lemma no_empty_children_set_value [simp]:
  "no_empty_children (set_value node v) = no_empty_children node"
  by (simp add: no_empty_children_iff)

lemma no_empty_children_new_node [simp]: "no_empty_children (new_node ch)"
  by (simp add: new_node_def)

lemma walk_create_no_empty_children:
  assumes fin: "\<And>n. no_empty_children n \<Longrightarrow> no_empty_children (fst (fin n))"
  shows "no_empty_children node \<Longrightarrow> no_empty_children (fst (walk_create fin node key))"
proof (induction key arbitrary: node)
  case Nil
  then show ?case by (simp add: fin)
next
  case (Cons ch key)
  define cs where "cs = (case opt_children node of None \<Rightarrow> [] | Some cs \<Rightarrow> cs)"
  have sub: "\<forall>n \<in> set cs. no_empty_children n"
    using Cons.prems by (auto simp: cs_def no_empty_children_iff [of node] split: option.splits)
  show ?case
  proof (cases "find_if (\<lambda>child. character child = ch) cs")
    case None
    obtain child' r where w: "walk_create fin (new_node ch) key = (child', r)"
      by (cases "walk_create fin (new_node ch) key")
    from Cons.IH [of "new_node ch"] w have "no_empty_children child'"
      by simp
    with sub have "no_empty_children (set_children node (Some (cs @ [child'])))"
      by (simp add: no_empty_children_iff [of "set_children _ _"])
    with None w show ?thesis
      by (simp add: Let_def cs_def [symmetric])
  next
    case (Some i)
    obtain child' r where w: "walk_create fin (cs ! i) key = (child', r)"
      by (cases "walk_create fin (cs ! i) key")
    have il: "i < length cs"
      using find_if_Some [OF Some] by simp
    with sub have "no_empty_children (cs ! i)" by simp
    with Cons.IH [of "cs ! i"] w have "no_empty_children child'"
      by simp
    with sub set_update_subset_insert [of cs i child'] il
    have "no_empty_children (set_children node (Some (cs[i := child'])))"
      by (auto simp: no_empty_children_iff [of "set_children _ _"])
    with Some w show ?thesis
      by (simp add: Let_def cs_def [symmetric])
  qed
qed

lemma erase_recursive_never_prunes:
  "no_empty_children node \<Longrightarrow>
   no_empty_children (fst (erase_recursive node key sz))
   \<and> node_count (fst (erase_recursive node key sz)) = node_count node"
proof (induction key arbitrary: node)
  case Nil
  then show ?case
    by (simp add: node_count_iff [of "set_value _ _"] node_count_iff [of node])
next
  case (Cons ch key)
  show ?case
  proof (cases "opt_children node")
    case None
    with Cons.prems show ?thesis by simp
  next
    case (Some cs)
    from Cons.prems Some have sub: "\<forall>n \<in> set cs. no_empty_children n"
      by (simp add: no_empty_children_iff [of node])
    show ?thesis
    proof (cases "find_if (\<lambda>child. character child = ch) cs")
      case None
      with Some Cons.prems show ?thesis by simp
    next
      case i: (Some i)
      obtain child' sz' b where r: "erase_recursive (cs ! i) key sz = (child', sz', b)"
        by (cases "erase_recursive (cs ! i) key sz")
      have il: "i < length cs" using find_if_Some [OF i] by simp
      with sub have "no_empty_children (cs ! i)" by simp
      from Cons.IH [OF this] r
      have c: "no_empty_children child'" "node_count child' = node_count (cs ! i)"
        by simp_all
      from c(1) have keep: "opt_children child' \<noteq> Some []"
        by (auto simp: no_empty_children_iff [of child'])
      have e: "erase_recursive node (ch # key) sz =
                 (if b then (set_children node (Some (cs[i := child'])), sz', True)
                  else (node, sz, False))"
        unfolding erase_recursive_Cons [OF Some i r] using keep by simp
      have 1: "no_empty_children (set_children node (Some (cs[i := child'])))"
        using sub c(1) il set_update_subset_insert [of cs i child']
        by (auto simp: no_empty_children_iff [of "set_children _ _"])
      have 2: "node_count (set_children node (Some (cs[i := child']))) = node_count node"
        using sum_list_map_update [OF il, of node_count child'] c(2) Some
        by (simp add: node_count_iff [of "set_children _ _"] node_count_iff [of node])
      from 1 2 Cons.prems show ?thesis
        unfolding e by simp
    qed
  qed
qed

lemma step_no_empty_children:
  "no_empty_children (m_root t) \<Longrightarrow> no_empty_children (m_root (step dflt t c))"
proof (cases c)
  case (Subscript key)
  assume "no_empty_children (m_root t)"
  then have "no_empty_children (m_root (fst (find_or_insert dflt t key)))"
    unfolding m_root_find_or_insert
    by (rule walk_create_no_empty_children [rotated]) (simp split: option.splits)
  with Subscript show ?thesis by (simp add: subscript_def)
next
  case (Assign key v)
  assume "no_empty_children (m_root t)"
  then have "no_empty_children (m_root (fst (find_or_insert dflt t key)))"
    unfolding m_root_find_or_insert
    by (rule walk_create_no_empty_children [rotated]) (simp split: option.splits)
  then have "no_empty_children
      (fst (walk_create (\<lambda>node. (set_value node (Some v), ()))
              (m_root (fst (find_or_insert dflt t key))) key))"
    by (rule walk_create_no_empty_children [rotated]) simp
  with Assign show ?thesis
    by (auto simp: assign_def subscript_def split: prod.splits)
next
  case (Insert key v)
  assume "no_empty_children (m_root t)"
  then have "no_empty_children (m_root (fst (insert_Trie t (key, v))))"
    unfolding m_root_insert_Trie
    by (rule walk_create_no_empty_children [rotated]) (simp split: option.splits)
  with Insert show ?thesis by simp
next
  case (At key)
  assume "no_empty_children (m_root t)"
  with At show ?thesis by (simp add: fst_at_Trie)
next
  case (Find key)
  assume "no_empty_children (m_root t)"
  with Find show ?thesis by simp
next
  case (Contains key)
  assume "no_empty_children (m_root t)"
  with Contains show ?thesis by simp
next
  case (Erase key)
  assume "no_empty_children (m_root t)"
  with Erase erase_recursive_never_prunes [of "m_root t" key "m_size t"] show ?thesis
    by (simp add: m_root_erase)
next
  case Clear
  then show ?thesis
    by (simp add: clear_def no_empty_children_iff [of "set_children _ _"])
qed

lemma state_after_no_empty_children: "no_empty_children (m_root (state_after dflt calls))"
proof (induction calls rule: rev_induct)
  case Nil
  then show ?case by (simp add: state_after_def Trie_init_def)
next
  case (snoc c calls)
  then show ?case
    using step_no_empty_children [of "state_after dflt calls" dflt c]
    by (simp add: state_after_def)
qed

lemma erase_removes_no_node:
  "node_count (m_root (fst (erase (state_after dflt calls) k)))
   = node_count (m_root (state_after dflt calls))"
  using erase_recursive_never_prunes [OF state_after_no_empty_children, of dflt calls k]
  by (simp add: m_root_erase)

subsection \<open>The cursor started at the root\<close>

lemma cursor_from_root_example:
  "collect_from
      (iterator_at (0::int) (m_root (state_after 0 [Insert ''a'' 1, Insert ''ab'' 2, Insert ''b'' 3])))
   = [(''a'', 1), (''ab'', 2)]"
  by code_simp

subsection \<open>What erase and the subscript do guarantee\<close>

text \<open>
  In every state a caller can reach, \<open>erase(k)\<close> returns true exactly when a value was
  stored at \<open>k\<close>; then the counter is the old one minus one in \<open>size_t\<close> arithmetic
  (one less as a number unless it was 0) and no value is stored at \<open>k\<close> any more, so
  that erasing \<open>k\<close> again returns false and changes nothing. When it returns false,
  nothing has changed.
\<close>

lemma erase_spec:
  assumes "erase (state_after dflt calls) k = (t', b)"
  shows "(b \<longleftrightarrow> find_Trie (state_after dflt calls) k \<noteq> None)
       \<and> (b \<longrightarrow> size_Trie t' = size_Trie (state_after dflt calls) - 1)
       \<and> (b \<and> size_Trie (state_after dflt calls) \<noteq> 0 \<longrightarrow>
            unat (size_Trie t') + 1 = unat (size_Trie (state_after dflt calls)))
       \<and> (\<not> b \<longrightarrow> t' = state_after dflt calls)
       \<and> (b \<longrightarrow> find_Trie t' k = None \<and> erase t' k = (t', False))"
proof -
  note g = erase_general [OF assms]
  have gone: "find_Trie t' k = None" if "b"
    using g(4) [OF that state_after_distinct_labels] .
  have again: "erase t' k = (t', False)" if "b"
  proof -
    obtain t'' b' where e2: "erase t' k = (t'', b')"
      by (cases "erase t' k")
    from erase_general(1) [OF e2] gone [OF that] have "\<not> b'" by simp
    with erase_general(3) [OF e2] e2 show ?thesis by simp
  qed
  have less: "unat (m_size t') + 1 = unat (m_size (state_after dflt calls))"
    if "b" "m_size (state_after dflt calls) \<noteq> 0"
    using g(2) [OF that(1)] size_t_decrement [OF that(2)] by simp
  from g(1) g(2) g(3) gone again less show ?thesis
    by (simp add: size_Trie_def)
qed

lemma erase_spec_example:
  "erase (state_after (0::int) [Subscript ''ab'', Subscript ''a'']) ''a''
     = (state_after 0 [Subscript ''ab'', Subscript ''a'', Erase ''a''], True)
   \<and> find_Trie (state_after (0::int) [Subscript ''ab'', Subscript ''a'']) ''a'' \<noteq> None
   \<and> size_Trie (state_after (0::int) [Subscript ''ab'', Subscript ''a'']) \<noteq> 0
   \<and> unat (size_Trie (state_after (0::int) [Subscript ''ab'', Subscript ''a'', Erase ''a''])) + 1
       = unat (size_Trie (state_after (0::int) [Subscript ''ab'', Subscript ''a'']))
   \<and> find_Trie (state_after (0::int) [Subscript ''ab'', Subscript ''a'', Erase ''a'']) ''a'' = None
   \<and> erase (state_after (0::int) [Subscript ''ab'', Subscript ''a'', Erase ''a'']) ''a''
       = (state_after 0 [Subscript ''ab'', Subscript ''a'', Erase ''a''], False)"
proof -
  have e: "erase (state_after (0::int) [Subscript ''ab'', Subscript ''a'']) ''a''
             = (state_after 0 [Subscript ''ab'', Subscript ''a'', Erase ''a''], True)"
    by code_simp
  have nz: "size_Trie (state_after (0::int) [Subscript ''ab'', Subscript ''a'']) \<noteq> 0"
    by code_simp
  note s = erase_spec [OF e]
  from s have stored: "find_Trie (state_after (0::int) [Subscript ''ab'', Subscript ''a'']) ''a'' \<noteq> None"
    and gone: "find_Trie (state_after (0::int) [Subscript ''ab'', Subscript ''a'', Erase ''a'']) ''a'' = None"
    and again: "erase (state_after (0::int) [Subscript ''ab'', Subscript ''a'', Erase ''a'']) ''a''
                  = (state_after 0 [Subscript ''ab'', Subscript ''a'', Erase ''a''], False)"
    by blast+
  from s nz
  have less: "unat (size_Trie (state_after (0::int) [Subscript ''ab'', Subscript ''a'', Erase ''a''])) + 1
                = unat (size_Trie (state_after (0::int) [Subscript ''ab'', Subscript ''a'']))"
    by blast
  from e stored nz less gone again show ?thesis
    by blast
qed

text \<open>
  For the key that \<open>find_or_insert\<close> iterates: afterwards \<open>contains\<close> is true and the
  returned value is the stored one; an absent value is default-constructed and counted
  in \<open>size_t\<close> arithmetic; a present one is returned and the trie is unchanged.
\<close>

lemma subscript_spec:
  assumes "subscript dflt t k = (t', v)"
  shows "contains t' k \<and> find_Trie t' k = Some v
       \<and> (find_Trie t k = None \<longrightarrow> v = dflt \<and> size_Trie t' = size_Trie t + 1)
       \<and> (find_Trie t k = None \<and> size_Trie t \<noteq> - 1 \<longrightarrow>
            unat (size_Trie t') = unat (size_Trie t) + 1)
       \<and> (find_Trie t k \<noteq> None \<longrightarrow> find_Trie t k = Some v \<and> size_Trie t' = size_Trie t \<and> t' = t)"
proof -
  from assms have a: "find_or_insert dflt t k = (t', v)"
    by (simp add: subscript_def)
  note g = find_or_insert_general [OF a]
  have more: "unat (m_size t') = unat (m_size t) + 1"
    if "find_Trie t k = None" "m_size t \<noteq> - 1"
    using g(3) [OF that(1)] size_t_increment [OF that(2)] by simp
  from g more show ?thesis
    by (simp add: contains_def size_Trie_def)
qed

lemma subscript_spec_example:
  "subscript (0::int) Trie_init ''a'' = (state_after 0 [Subscript ''a''], 0)
   \<and> find_Trie (Trie_init :: int Trie) ''a'' = None
   \<and> contains (state_after (0::int) [Subscript ''a'']) ''a''
   \<and> find_Trie (state_after (0::int) [Subscript ''a'']) ''a'' = Some 0
   \<and> size_Trie (state_after (0::int) [Subscript ''a'']) = size_Trie (Trie_init :: int Trie) + 1
   \<and> size_Trie (Trie_init :: int Trie) \<noteq> - 1
   \<and> unat (size_Trie (state_after (0::int) [Subscript ''a''])) = unat (size_Trie (Trie_init :: int Trie)) + 1
   \<and> state_after (0::int) [Subscript ''a'', Subscript ''a''] = state_after 0 [Subscript ''a'']"
proof -
  have nm: "size_Trie (Trie_init :: int Trie) \<noteq> - 1"
    by (simp add: size_Trie_def Trie_init_def)
  have e1: "subscript (0::int) Trie_init ''a'' = (state_after 0 [Subscript ''a''], 0)"
    by code_simp
  have e2: "subscript 0 (state_after (0::int) [Subscript ''a'']) ''a''
              = (state_after 0 [Subscript ''a'', Subscript ''a''], 0)"
    by code_simp
  have absent: "find_Trie (Trie_init :: int Trie) ''a'' = None"
    by code_simp
  note s1 = subscript_spec [OF e1]
  note s2 = subscript_spec [OF e2]
  from s1 have c: "contains (state_after (0::int) [Subscript ''a'']) ''a''"
    and f: "find_Trie (state_after (0::int) [Subscript ''a'']) ''a'' = Some 0"
    by blast+
  from s1 absent
  have sz: "size_Trie (state_after (0::int) [Subscript ''a'']) = size_Trie (Trie_init :: int Trie) + 1"
    by blast
  from s1 absent nm
  have more: "unat (size_Trie (state_after (0::int) [Subscript ''a''])) = unat (size_Trie (Trie_init :: int Trie)) + 1"
    by blast
  from f have "find_Trie (state_after (0::int) [Subscript ''a'']) ''a'' \<noteq> None"
    by simp
  with s2 have same: "state_after (0::int) [Subscript ''a'', Subscript ''a''] = state_after 0 [Subscript ''a'']"
    by blast
  from e1 absent c f sz nm more same show ?thesis
    by blast
qed

section \<open>The claims\<close>

text \<open>
  C1. The claim: \<open>contains(k)\<close> is true exactly when a node exists at the path of
  \<open>k\<close> and carries a value, so that it is false after \<open>erase(k)\<close>. The code tests
  only that the node exists. After \<open>insert({"ab", 1})\<close> the key \<open>"a"\<close> has a node and
  no value: \<open>find\<close> returns null and \<open>contains\<close> returns true. After
  \<open>insert({"a", 1})\<close> and \<open>erase("a")\<close> the node of \<open>"a"\<close> is still there, without
  a value, and \<open>contains("a")\<close> is true. In the new trie \<open>contains("")\<close> is true.
\<close>

theorem contains_true_without_value:
  "contains (state_after (0::int) [Insert ''ab'' 1]) ''a''
   \<and> find_Trie (state_after (0::int) [Insert ''ab'' 1]) ''a'' = None
   \<and> erase (state_after (0::int) [Insert ''a'' 1]) ''a''
       = (\<lparr>m_root = TrieNode (CHR 0x00) (Some [TrieNode CHR ''a'' None None]) None, m_size = 0\<rparr>, True)
   \<and> contains (fst (erase (state_after (0::int) [Insert ''a'' 1]) ''a'')) ''a''
   \<and> contains (Trie_init :: int Trie) ''''"
  by code_simp

text \<open>
  C2. The claim: after \<open>erase\<close> no node below the root has both no value and absent
  or empty children. After \<open>insert({"ab", 1})\<close> and \<open>erase("ab")\<close> the node of
  \<open>"ab"\<close> stays in its parent's vector with no value and absent children: the
  removal is guarded by the children being present and empty.
\<close>

theorem erase_keeps_dead_node:
  "state_after (0::int) [Insert ''ab'' 1, Erase ''ab'']
     = \<lparr>m_root = TrieNode (CHR 0x00)
          (Some [TrieNode CHR ''a'' (Some [TrieNode CHR ''b'' None None]) None]) None,
        m_size = 0\<rparr>
   \<and> dead (TrieNode CHR ''b'' None (None :: int option))
   \<and> dead_below (m_root (state_after (0::int) [Insert ''ab'' 1, Erase ''ab'']))"
  by code_simp

text \<open>
  C3. The claim: iterating from \<open>begin()\<close> to \<open>end()\<close> yields the stored pairs in
  pre-order. Both functions return the default iterator, so the loop ends at once:
  after inserting \<open>"a"\<close>, \<open>"ab"\<close> and \<open>"b"\<close> with the values 1, 2 and 3, all three
  are stored and the iteration yields nothing.
\<close>

theorem iterate_yields_nothing:
  "iterate (0::int) (state_after 0 [Insert ''a'' 1, Insert ''ab'' 2, Insert ''b'' 3]) = []
   \<and> map (find_Trie (state_after (0::int) [Insert ''a'' 1, Insert ''ab'' 2, Insert ''b'' 3]))
        [''a'', ''ab'', ''b''] = [Some 1, Some 2, Some 3]"
  by code_simp

text \<open>
  C4. The claim: in every reachable state \<open>size()\<close> is the number of nodes with a
  value. After \<open>insert({"", 7})\<close> and \<open>clear()\<close> the root still holds its value, and
  \<open>size()\<close> is 0 where one node has a value.
\<close>

theorem size_wrong_after_clear:
  "state_after (0::int) [Insert '''' 7, Clear]
     = \<lparr>m_root = TrieNode (CHR 0x00) None (Some 7), m_size = 0\<rparr>
   \<and> size_Trie (state_after (0::int) [Insert '''' 7, Clear]) = 0
   \<and> count_values (m_root (state_after (0::int) [Insert '''' 7, Clear])) = 1"
  by code_simp

text \<open>
  C5. The claim: after \<open>clear()\<close> the size is 0 and \<open>contains(k)\<close> is false for
  every key inserted before. After \<open>insert({"", 7})\<close> and \<open>clear()\<close> the size is 0,
  but \<open>contains("")\<close> is true and \<open>find("")\<close> still yields 7.
\<close>

theorem clear_keeps_empty_key:
  "find_Trie (state_after (0::int) [Insert '''' 7]) '''' = Some 7
   \<and> size_Trie (state_after (0::int) [Insert '''' 7, Clear]) = 0
   \<and> contains (state_after (0::int) [Insert '''' 7, Clear]) ''''
   \<and> find_Trie (state_after (0::int) [Insert '''' 7, Clear]) '''' = Some 7"
  by code_simp

text \<open>
  C6. The claim: \<open>erase(k)\<close> returns true exactly when a value was stored at \<open>k\<close>,
  and then the size decreases by exactly 1. After \<open>insert({"", 7})\<close> and \<open>clear()\<close>
  the root still holds its value and \<open>size()\<close> is 0; there \<open>erase("")\<close> returns true
  and takes \<open>size()\<close> from 0 to the largest \<open>size_t\<close>.
\<close>

theorem erase_wraps_size:
  "find_Trie (state_after (0::int) [Insert '''' 7, Clear]) '''' = Some 7
   \<and> size_Trie (state_after (0::int) [Insert '''' 7, Clear]) = 0
   \<and> erase (state_after (0::int) [Insert '''' 7, Clear]) ''''
       = (\<lparr>m_root = TrieNode (CHR 0x00) None None, m_size = - 1\<rparr>, True)
   \<and> unat (size_Trie (fst (erase (state_after (0::int) [Insert '''' 7, Clear]) '''')))
       = 18446744073709551615"
proof -
  have stored: "find_Trie (state_after (0::int) [Insert '''' 7, Clear]) '''' = Some 7"
    by code_simp
  have zero: "size_Trie (state_after (0::int) [Insert '''' 7, Clear]) = 0"
    by code_simp
  have e: "erase (state_after (0::int) [Insert '''' 7, Clear]) ''''
             = (\<lparr>m_root = TrieNode (CHR 0x00) None None, m_size = - 1\<rparr>, True)"
    by code_simp
  have largest: "unat (size_Trie (fst (erase (state_after (0::int) [Insert '''' 7, Clear]) '''')))
                   = 18446744073709551615"
    unfolding e by (simp add: size_Trie_def unsigned_minus_1_eq_mask mask_eq_exp_minus_1)
  show ?thesis
    using stored zero e largest by (intro conjI)
qed

text \<open>
  C7. The claim: after \<open>operator[](k)\<close> the returned reference designates the value
  stored at \<open>k\<close>, and the size grows by exactly one if no value was stored there and
  is unchanged otherwise. With 1 stored at \<open>"ab"\<close> by \<open>insert({"ab", 1})\<close>, the call
  \<open>t["ab"]\<close> is keyed with the literal's array: it returns a new default value and
  the size goes from 1 to 2, while \<open>find("ab")\<close> still yields 1. On a new trie
  \<open>t["ab"]\<close> leaves \<open>find("ab")\<close> null. And after \<open>insert({"", 7})\<close>, \<open>clear()\<close>
  and \<open>erase("")\<close> the size is the largest \<open>size_t\<close>: \<open>operator[]\<close> on the absent
  key \<open>"a"\<close> takes it to 0.
\<close>

theorem subscript_literal_and_wrap:
  "find_Trie (state_after (0::int) [Insert ''ab'' 1]) ''ab'' = Some 1
   \<and> size_Trie (state_after (0::int) [Insert ''ab'' 1]) = 1
   \<and> snd (subscript 0 (state_after (0::int) [Insert ''ab'' 1]) (c_literal ''ab'')) = 0
   \<and> size_Trie (fst (subscript 0 (state_after (0::int) [Insert ''ab'' 1]) (c_literal ''ab''))) = 2
   \<and> find_Trie (fst (subscript 0 (state_after (0::int) [Insert ''ab'' 1]) (c_literal ''ab''))) ''ab'' = Some 1
   \<and> find_Trie (fst (subscript 0 (Trie_init :: int Trie) (c_literal ''ab''))) ''ab'' = None
   \<and> size_Trie (state_after (0::int) [Insert '''' 7, Clear, Erase '''']) = - 1
   \<and> find_Trie (state_after (0::int) [Insert '''' 7, Clear, Erase '''']) ''a'' = None
   \<and> size_Trie (fst (subscript 0 (state_after (0::int) [Insert '''' 7, Clear, Erase '''']) ''a'')) = 0"
proof -
  have 1: "find_Trie (state_after (0::int) [Insert ''ab'' 1]) ''ab'' = Some 1"
    by code_simp
  have 2: "size_Trie (state_after (0::int) [Insert ''ab'' 1]) = 1"
    by code_simp
  have 3: "snd (subscript 0 (state_after (0::int) [Insert ''ab'' 1]) (c_literal ''ab'')) = 0"
    by code_simp
  have 4: "size_Trie (fst (subscript 0 (state_after (0::int) [Insert ''ab'' 1]) (c_literal ''ab''))) = 2"
    by code_simp
  have 5: "find_Trie (fst (subscript 0 (state_after (0::int) [Insert ''ab'' 1]) (c_literal ''ab''))) ''ab'' = Some 1"
    by code_simp
  have 6: "find_Trie (fst (subscript 0 (Trie_init :: int Trie) (c_literal ''ab''))) ''ab'' = None"
    by code_simp
  have 7: "size_Trie (state_after (0::int) [Insert '''' 7, Clear, Erase '''']) = - 1"
    by code_simp
  have 8: "find_Trie (state_after (0::int) [Insert '''' 7, Clear, Erase '''']) ''a'' = None"
    by code_simp
  have 9: "size_Trie (fst (subscript 0 (state_after (0::int) [Insert '''' 7, Clear, Erase '''']) ''a'')) = 0"
    by code_simp
  show ?thesis
    using 1 2 3 4 5 6 7 8 9 by (intro conjI)
qed

text \<open>
  C8. \<open>insert(k, v1)\<close> reports an insertion exactly when no value was stored at
  \<open>k\<close>; then \<open>v1\<close> is stored there and counted (one more, unless the counter
  wraps around), and otherwise the trie is left as it was, the old value in place. A second \<open>insert(k, v2)\<close> right after reports no
  insertion and changes nothing, so \<open>find(k)\<close> yields what it yielded before: \<open>v1\<close>
  when the first call stored it.
\<close>

theorem insert_spec:
  assumes "insert_Trie t (k, v1) = (t1, (p1, b1))"
    and "insert_Trie t1 (k, v2) = (t2, (p2, b2))"
  shows "(b1 \<longleftrightarrow> find_Trie t k = None)
       \<and> (b1 \<longrightarrow> find_Trie t1 k = Some v1 \<and> p1 = v1 \<and> size_Trie t1 = size_Trie t + 1)
       \<and> (b1 \<and> size_Trie t \<noteq> - 1 \<longrightarrow> unat (size_Trie t1) = unat (size_Trie t) + 1)
       \<and> (\<not> b1 \<longrightarrow> find_Trie t1 k = find_Trie t k \<and> find_Trie t k = Some p1 \<and> t1 = t)
       \<and> \<not> b2 \<and> t2 = t1 \<and> find_Trie t2 k = find_Trie t1 k
       \<and> (b1 \<longrightarrow> find_Trie t2 k = Some v1 \<and> p2 = v1)"
proof -
  note g1 = insert_Trie_general [OF assms(1)]
  note g2 = insert_Trie_general [OF assms(2)]
  from g1(2) g2(1) have nb2: "\<not> b2" by simp
  from g2(4) [OF nb2] have same: "t2 = t1" "find_Trie t1 k = Some p2" by simp_all
  have more: "unat (m_size t1) = unat (m_size t) + 1" if "b1" "m_size t \<noteq> - 1"
    using g1(3) [OF that(1)] size_t_increment [OF that(2)] by simp
  from g1 nb2 same more show ?thesis
    by (auto simp: size_Trie_def)
qed

theorem insert_spec_witness:
  "insert_Trie (Trie_init :: int Trie) (''a'', 1) = (state_after 0 [Insert ''a'' 1], (1, True))
   \<and> insert_Trie (state_after (0::int) [Insert ''a'' 1]) (''a'', 2)
       = (state_after 0 [Insert ''a'' 1, Insert ''a'' 2], (1, False))
   \<and> state_after (0::int) [Insert ''a'' 1, Insert ''a'' 2] = state_after 0 [Insert ''a'' 1]
   \<and> find_Trie (Trie_init :: int Trie) ''a'' = None
   \<and> size_Trie (Trie_init :: int Trie) \<noteq> - 1
   \<and> unat (size_Trie (state_after (0::int) [Insert ''a'' 1])) = unat (size_Trie (Trie_init :: int Trie)) + 1
   \<and> find_Trie (state_after (0::int) [Insert ''a'' 1, Insert ''a'' 2]) ''a'' = Some 1"
proof -
  have nm: "size_Trie (Trie_init :: int Trie) \<noteq> - 1"
    by (simp add: size_Trie_def Trie_init_def)
  have e1: "insert_Trie (Trie_init :: int Trie) (''a'', 1) = (state_after 0 [Insert ''a'' 1], (1, True))"
    by code_simp
  have e2: "insert_Trie (state_after (0::int) [Insert ''a'' 1]) (''a'', 2)
              = (state_after 0 [Insert ''a'' 1, Insert ''a'' 2], (1, False))"
    by code_simp
  note s = insert_spec [OF e1 e2]
  from s have same: "state_after (0::int) [Insert ''a'' 1, Insert ''a'' 2] = state_after 0 [Insert ''a'' 1]"
    and absent: "find_Trie (Trie_init :: int Trie) ''a'' = None"
    and kept: "find_Trie (state_after (0::int) [Insert ''a'' 1, Insert ''a'' 2]) ''a'' = Some 1"
    by blast+
  from s nm
  have more: "unat (size_Trie (state_after (0::int) [Insert ''a'' 1])) = unat (size_Trie (Trie_init :: int Trie)) + 1"
    by blast
  from e1 e2 same absent nm more kept show ?thesis
    by blast
qed

text \<open>
  C9. In every state a caller can reach, \<open>at(k)\<close> leaves the trie as it is; it fails
  with KeyNotFound exactly when no node lies at the path of \<open>k\<close> or the node there
  has no value; otherwise it returns the value of the one node at that path.
\<close>

theorem at_spec:
  "fst (at_Trie (state_after dflt calls) k) = state_after dflt calls
   \<and> (snd (at_Trie (state_after dflt calls) k) = Inl KeyNotFound \<longleftrightarrow>
        \<not> path_exists (m_root (state_after dflt calls)) k
        \<or> (\<exists>n \<in> set (nodes_at (m_root (state_after dflt calls)) k). opt_value n = None))
   \<and> (snd (at_Trie (state_after dflt calls) k) \<noteq> Inl KeyNotFound \<longrightarrow>
        (\<exists>n v. nodes_at (m_root (state_after dflt calls)) k = [n] \<and> opt_value n = Some v
           \<and> snd (at_Trie (state_after dflt calls) k) = Inr v))"
proof -
  let ?t = "state_after dflt calls"
  have n: "nodes_at (m_root ?t) k = (case find_node (m_root ?t) k of None \<Rightarrow> [] | Some n \<Rightarrow> [n])"
    by (rule nodes_at_find_node) (rule state_after_distinct_labels)
  show ?thesis
  proof (cases "find_node (m_root ?t) k")
    case None
    with n show ?thesis
      by (simp add: at_Trie_def path_exists_def)
  next
    case (Some node)
    with n show ?thesis
      by (cases "opt_value node") (simp_all add: at_Trie_def path_exists_def)
  qed
qed

theorem at_spec_witness:
  "snd (at_Trie (state_after (0::int) [Assign ''ab'' 5]) ''ab'') = Inr 5
   \<and> fst (at_Trie (state_after (0::int) [Assign ''ab'' 5]) ''ab'') = state_after 0 [Assign ''ab'' 5]
   \<and> path_exists (m_root (state_after (0::int) [Assign ''ab'' 5])) ''a''
   \<and> snd (at_Trie (state_after (0::int) [Assign ''ab'' 5]) ''a'') = Inl KeyNotFound
   \<and> \<not> path_exists (m_root (state_after (0::int) [Assign ''ab'' 5])) ''x''
   \<and> snd (at_Trie (state_after (0::int) [Assign ''ab'' 5]) ''x'') = Inl KeyNotFound"
proof -
  have 1: "nodes_at (m_root (state_after (0::int) [Assign ''ab'' 5])) ''ab'' = [TrieNode CHR ''b'' None (Some 5)]"
    by code_simp
  have 2: "nodes_at (m_root (state_after (0::int) [Assign ''ab'' 5])) ''a''
             = [TrieNode CHR ''a'' (Some [TrieNode CHR ''b'' None (Some 5)]) None]"
    by code_simp
  have 3: "nodes_at (m_root (state_after (0::int) [Assign ''ab'' 5])) ''x'' = []"
    by code_simp
  have a: "snd (at_Trie (state_after (0::int) [Assign ''ab'' 5]) ''ab'') = Inr 5"
    "fst (at_Trie (state_after (0::int) [Assign ''ab'' 5]) ''ab'') = state_after 0 [Assign ''ab'' 5]"
    using at_spec [of "0::int" "[Assign ''ab'' 5]" "''ab''"]
    unfolding path_exists_def 1 by auto
  have b: "snd (at_Trie (state_after (0::int) [Assign ''ab'' 5]) ''a'') = Inl KeyNotFound"
    using at_spec [of "0::int" "[Assign ''ab'' 5]" "''a''"]
    unfolding path_exists_def 2 by simp
  have c: "snd (at_Trie (state_after (0::int) [Assign ''ab'' 5]) ''x'') = Inl KeyNotFound"
    using at_spec [of "0::int" "[Assign ''ab'' 5]" "''x''"]
    unfolding path_exists_def 3 by simp
  from a b c show ?thesis
    unfolding path_exists_def 2 3 by simp
qed

text \<open>
  C10. In every state a caller can reach, \<open>contains(k)\<close> is true exactly when a node
  lies at the path of \<open>k\<close>, whether or not it holds a value. In any state it is true
  for every prefix of a stored key and for the empty key, also in the new trie.
\<close>

theorem contains_path:
  "(contains (state_after dflt calls) k \<longleftrightarrow> path_exists (m_root (state_after dflt calls)) k)
   \<and> (find_Trie t (k @ s) \<noteq> None \<longrightarrow> contains t k)
   \<and> contains t []
   \<and> contains (Trie_init :: 'v Trie) []"
proof -
  let ?t = "state_after dflt calls"
  have "nodes_at (m_root ?t) k = (case find_node (m_root ?t) k of None \<Rightarrow> [] | Some n \<Rightarrow> [n])"
    by (rule nodes_at_find_node) (rule state_after_distinct_labels)
  then have 1: "contains ?t k \<longleftrightarrow> path_exists (m_root ?t) k"
    by (simp add: contains_def path_exists_def split: option.splits)
  have 2: "contains t k" if "find_Trie t (k @ s) \<noteq> None"
  proof -
    from that have "find_node (m_root t) (k @ s) \<noteq> None"
      by (auto simp: find_Trie_def split: option.splits)
    then show ?thesis
      unfolding contains_def by (rule find_node_prefix)
  qed
  from 1 2 show ?thesis
    by (simp add: contains_def)
qed

theorem contains_path_witness:
  "path_exists (m_root (state_after (0::int) [Subscript ''ab''])) ''a''
   \<and> contains (state_after (0::int) [Subscript ''ab'']) ''a''
   \<and> find_Trie (state_after (0::int) [Subscript ''ab'']) ''a'' = None
   \<and> find_Trie (state_after (0::int) [Subscript ''ab'']) (''a'' @ ''b'') = Some 0
   \<and> contains (state_after (0::int) [Subscript ''ab'']) []
   \<and> contains (Trie_init :: int Trie) []"
proof -
  have p: "path_exists (m_root (state_after (0::int) [Subscript ''ab''])) ''a''"
    by code_simp
  have f: "find_Trie (state_after (0::int) [Subscript ''ab'']) ''a'' = None"
    "find_Trie (state_after (0::int) [Subscript ''ab'']) (''a'' @ ''b'') = Some 0"
    by code_simp+
  from p f contains_path [of "0::int" "[Subscript ''ab'']" "''a''" "state_after (0::int) [Subscript ''ab'']" "''b''"]
  show ?thesis
    by simp
qed

end
